theory Spec2Isabelle
  imports Main
begin

section \<open>Values of the host language\<close>

text \<open>
  The CFI core of the repository (\<^verbatim>\<open>src/epub/epubcfi.ts\<close>) is embedded function by
  function.  A run-time \<^verbatim>\<open>TypeError\<close> (a property read or write on \<^verbatim>\<open>undefined\<close> or
  \<^verbatim>\<open>null\<close>, a failed destructuring) is the only exception the core can raise; a function
  that can raise it returns \<open>error + 'a\<close>.
\<close>

datatype error = TypeError

text \<open>
  Numbers.  \<open>Num i\<close> is an integral number, \<open>NaN\<close> is what \<^verbatim>\<open>parseInt\<close> and
  \<^verbatim>\<open>parseFloat\<close> give on text without a digit, and \<open>Dec i f\<close> is the non-integral decimal
  \<open>i.f\<close> (fraction digits \<open>f\<close>, not ending in a zero) that \<^verbatim>\<open>parseFloat\<close> reads.
  Integers and decimals are exact here, where the code has doubles: beyond \<open>2^53\<close> and
  beyond 15 significant digits a double is rounded, and a template literal renders a very
  large or very small double in exponent notation.  The theorems that depend on how a number
  is read or rendered are therefore stated for the numbers on which the two agree (the
  predicates \<open>natural\<close>, \<open>plain\<close> and \<open>exact\<close> below).
\<close>

datatype number = NaN | Num int | Dec nat string

definition isDigit :: "char \<Rightarrow> bool" where
  "isDigit c = (48 \<le> (of_char c :: nat) \<and> (of_char c :: nat) \<le> 57)"

definition digitVal :: "char \<Rightarrow> nat" where
  "digitVal c = of_char c - 48"

definition digitChar :: "nat \<Rightarrow> char" where
  "digitChar d = char_of (48 + d)"

fun showNat :: "nat \<Rightarrow> string" where
  "showNat n = (if n < 10 then [digitChar n] else showNat (n div 10) @ [digitChar (n mod 10)])"

declare showNat.simps [simp del]

definition readNat :: "string \<Rightarrow> nat" where
  "readNat ds = foldl (\<lambda>a c. 10 * a + digitVal c) 0 ds"

text \<open>
  \<^verbatim>\<open>parseInt(value)\<close>: the longest prefix of digits, read in base 10; \<open>NaN\<close> when there
  is none.  (The tokenizer only ever accumulates digits into \<^verbatim>\<open>value\<close> in the states that
  call it, so signs, blanks and radix prefixes do not occur.)
\<close>

definition parseInt :: "string \<Rightarrow> number" where
  "parseInt s = (let ds = takeWhile isDigit s in if ds = [] then NaN else Num (int (readNat ds)))"

definition stripZeros :: "string \<Rightarrow> string" where
  "stripZeros f = rev (dropWhile (\<lambda>c. c = CHR ''0'') (rev f))"

text \<open>
  \<^verbatim>\<open>parseFloat(value)\<close> on the text of digits and dots that the tokenizer accumulates: the
  longest prefix of the shape \<^verbatim>\<open>digits[.digits]\<close>.
\<close>

definition parseFloat :: "string \<Rightarrow> number" where
  "parseFloat s =
    (let ip = takeWhile isDigit s;
         rest = dropWhile isDigit s;
         fp = (case rest of [] \<Rightarrow> [] | c # r \<Rightarrow> if c = CHR ''.'' then takeWhile isDigit r else [])
     in if ip = [] \<and> fp = [] then NaN
        else if stripZeros fp = [] then Num (int (readNat ip))
        else Dec (readNat ip) (stripZeros fp))"

text \<open>The string a template literal \<^verbatim>\<open>`${n}`\<close> renders for a number.\<close>

definition numToString :: "number \<Rightarrow> string" where
  "numToString n =
    (case n of
       NaN \<Rightarrow> ''NaN''
     | Num i \<Rightarrow> (if i < 0 then ''-'' @ showNat (nat (- i)) else showNat (nat i))
     | Dec i f \<Rightarrow> showNat i @ ''.'' @ f)"

text \<open>Truthiness of a number (\<^verbatim>\<open>0\<close> and \<^verbatim>\<open>NaN\<close> are falsy).\<close>

definition truthyNum :: "number \<Rightarrow> bool" where
  "truthyNum n = (case n of NaN \<Rightarrow> False | Num i \<Rightarrow> i \<noteq> 0 | Dec i f \<Rightarrow> True)"

text \<open>\<^verbatim>\<open>n % 2\<close>, as far as its truthiness goes.\<close>

definition mod2Truthy :: "number \<Rightarrow> bool" where
  "mod2Truthy n = (case n of NaN \<Rightarrow> False | Num i \<Rightarrow> odd i | Dec i f \<Rightarrow> True)"

text \<open>Strict equality \<^verbatim>\<open>===\<close> of two numbers: \<^verbatim>\<open>NaN\<close> equals nothing.\<close>

definition numEq :: "number \<Rightarrow> number \<Rightarrow> bool" where
  "numEq a b = (a \<noteq> NaN \<and> a = b)"

text \<open>Truthiness of an optional string (\<^verbatim>\<open>undefined\<close> and \<^verbatim>\<open>''\<close> are falsy).\<close>

definition truthyStr :: "string option \<Rightarrow> bool" where
  "truthyStr s = (case s of None \<Rightarrow> False | Some x \<Rightarrow> x \<noteq> [])"

definition join :: "'a list \<Rightarrow> 'a list list \<Rightarrow> 'a list" where
  "join sep xs = (case xs of [] \<Rightarrow> [] | y # ys \<Rightarrow> foldl (\<lambda>acc x. acc @ sep @ x) y ys)"

text \<open>
  \<^verbatim>\<open>Array.prototype.slice(start, end)\<close>: a negative bound counts from the end, and both
  bounds are clamped to the array.
\<close>

definition slice :: "'a list \<Rightarrow> int \<Rightarrow> int \<Rightarrow> 'a list" where
  "slice xs s e =
    (let n = int (length xs);
         s' = (if s < 0 then max (n + s) 0 else min s n);
         e' = (if e < 0 then max (n + e) 0 else min e n)
     in take (nat (e' - s')) (drop (nat s') xs))"

text \<open>
  \<^verbatim>\<open>String.prototype.trim\<close>, on characters below 256: tab, line feed, vertical tab,
  form feed, carriage return, space and no-break space.
\<close>

definition isSpace :: "char \<Rightarrow> bool" where
  "isSpace c = ((of_char c :: nat) \<in> {9, 10, 11, 12, 13, 32, 160})"

definition trim :: "string \<Rightarrow> string" where
  "trim s = rev (dropWhile isSpace (rev (dropWhile isSpace s)))"


section \<open>Envelope and escaping\<close>

text \<open>
  \<^verbatim>\<open>isCFIReg = /^epubcfi\((.*)\)$/\<close>: the capture group when the string matches.  The dot
  matches no line terminator.
\<close>

definition isLineTerminator :: "char \<Rightarrow> bool" where
  "isLineTerminator c = ((of_char c :: nat) \<in> {10, 13})"

definition matchCFI :: "string \<Rightarrow> string option" where
  "matchCFI x =
    (if 9 \<le> length x \<and> take 8 x = ''epubcfi('' \<and> last x = CHR '')''
        \<and> \<not> list_ex isLineTerminator (butlast (drop 8 x))
     then Some (butlast (drop 8 x)) else None)"

definition escapeCFI :: "string \<Rightarrow> string" where
  "escapeCFI str = concat (map (\<lambda>c. if c \<in> set ''^[](),;='' then [CHR ''^'', c] else [c]) str)"

definition wrap :: "string \<Rightarrow> string" where
  "wrap x = (if matchCFI x \<noteq> None then x else ''epubcfi('' @ x @ '')'')"

definition unwrap :: "string \<Rightarrow> string" where
  "unwrap x = (case matchCFI x of Some inner \<Rightarrow> inner | None \<Rightarrow> x)"


section \<open>Tokenizer\<close>

text \<open>
  A token is \<^verbatim>\<open>[type, val]\<close> or \<^verbatim>\<open>[type]\<close>; the payload of the latter is \<open>Undefined\<close>.
\<close>

datatype val = Undefined | Number number | Str string

type_synonym TToken = "string \<times> val"

record tokenizer_state =
  tokens :: "TToken list"
  state :: "string option"
  escape :: bool
  value' :: string

definition push :: "TToken \<Rightarrow> tokenizer_state \<Rightarrow> tokenizer_state" where
  "push x s = s\<lparr>tokens := tokens s @ [x], state := None, value' := []\<rparr>"

definition cat :: "string \<Rightarrow> tokenizer_state \<Rightarrow> tokenizer_state" where
  "cat x s = s\<lparr>value' := value' s @ x, escape := False\<rparr>"

text \<open>\<^verbatim>\<open>isNumberReg.test(char)\<close> with \<^verbatim>\<open>isNumberReg = /\d/\<close>.\<close>

definition isNumber :: "string \<Rightarrow> bool" where
  "isNumber char = list_ex isDigit char"

definition startsWith :: "string \<Rightarrow> string \<Rightarrow> bool" where
  "startsWith s p = (take (length p) s = p)"

text \<open>The tail of the loop body, reached when no branch said \<^verbatim>\<open>continue\<close>.\<close>

definition enter :: "string \<Rightarrow> tokenizer_state \<Rightarrow> tokenizer_state" where
  "enter char s =
    (if char = ''/'' \<or> char = '':'' \<or> char = ''~'' \<or> char = ''@'' \<or> char = ''[''
        \<or> char = ''!'' \<or> char = '',''
     then s\<lparr>state := Some char\<rparr> else s)"

text \<open>
  One round of the \<^verbatim>\<open>for\<close> loop of \<^verbatim>\<open>tokenizer\<close>.  \<open>char\<close> is one character of the
  input, or the empty string that the loop appends to the input.
\<close>

definition tokenizer_step :: "tokenizer_state \<Rightarrow> string \<Rightarrow> tokenizer_state" where
  "tokenizer_step s char =
    (if char = ''^'' \<and> \<not> escape s then s\<lparr>escape := True\<rparr>
     else if state s = Some ''!'' then enter char (push (''!'', Undefined) s)
     else if state s = Some '','' then enter char (push ('','', Undefined) s)
     else if state s = Some ''/'' \<or> state s = Some '':'' then
       (if isNumber char then cat char s
        else enter char (push (the (state s), Number (parseInt (value' s))) s))
     else if state s = Some ''~'' then
       (if isNumber char \<or> char = ''.'' then cat char s
        else enter char (push (''~'', Number (parseFloat (value' s))) s))
     else if state s = Some ''@'' then
       (if char = '':'' then (push (''@'', Number (parseFloat (value' s))) s)\<lparr>state := Some ''@''\<rparr>
        else if isNumber char \<or> char = ''.'' then cat char s
        else enter char (push (''@'', Number (parseFloat (value' s))) s))
     else if state s = Some ''['' then
       (if char = '';'' \<and> \<not> escape s then (push (''['', Str (value' s)) s)\<lparr>state := Some '';''\<rparr>
        else if char = '','' \<and> \<not> escape s then (push (''['', Str (value' s)) s)\<lparr>state := Some ''[''\<rparr>
        else if char = '']'' \<and> \<not> escape s then push (''['', Str (value' s)) s
        else cat char s)
     else if (case state s of None \<Rightarrow> False | Some st \<Rightarrow> startsWith st '';'') then
       (if char = ''='' \<and> \<not> escape s then s\<lparr>state := Some ('';'' @ value' s), value' := []\<rparr>
        else if char = '';'' \<and> \<not> escape s then (push (the (state s), Str (value' s)) s)\<lparr>state := Some '';''\<rparr>
        else if char = '']'' \<and> \<not> escape s then push (the (state s), Str (value' s)) s
        else cat char s)
     else enter char s)"

definition tokenizer_init :: tokenizer_state where
  "tokenizer_init = \<lparr>tokens = [], state = None, escape = False, value' = []\<rparr>"

text \<open>\<^verbatim>\<open>Array.from(str.trim()).concat('')\<close>: the characters, then the empty string.\<close>

definition chars :: "string \<Rightarrow> string list" where
  "chars str = map (\<lambda>c. [c]) str"

definition tokenizer :: "string \<Rightarrow> TToken list" where
  "tokenizer str = tokens (foldl tokenizer_step tokenizer_init (chars (trim str) @ [[]]))"


section \<open>Step parser\<close>

record TPart =
  index :: number
  offset :: "number option"
  temporal :: "number option"
  spatial :: "number list option"
  side :: "string option"
  id' :: "string option"
  text' :: "string list option"

definition newPart :: "number \<Rightarrow> TPart" where
  "newPart n = \<lparr>index = n, offset = None, temporal = None, spatial = None, side = None,
                id' = None, text' = None\<rparr>"

text \<open>
  \<^verbatim>\<open>val as number\<close> and \<^verbatim>\<open>val as string\<close> are unchecked casts.  The tokenizer pairs the
  types \<^verbatim>\<open>/ : ~ @\<close> with a number and \<^verbatim>\<open>[\<close> and \<^verbatim>\<open>;name\<close> with a string, and the
  parser casts only accordingly, so the other cases of the two projections are never reached
  from \<open>tokenizer\<close>.
\<close>

definition asNumber :: "val \<Rightarrow> number" where
  "asNumber v = (case v of Number n \<Rightarrow> n | _ \<Rightarrow> NaN)"

definition asString :: "val \<Rightarrow> string" where
  "asString v = (case v of Str s \<Rightarrow> s | _ \<Rightarrow> [])"

definition truthy :: "val \<Rightarrow> bool" where
  "truthy v = (case v of Undefined \<Rightarrow> False | Number n \<Rightarrow> truthyNum n | Str s \<Rightarrow> s \<noteq> [])"

text \<open>
  \<^verbatim>\<open>const last = parts[parts.length - 1]!\<close> followed by a read or write of a property of
  \<open>last\<close>: a \<^verbatim>\<open>TypeError\<close> when \<open>parts\<close> is empty, the update of the last Part otherwise.
\<close>

definition onLast :: "(TPart \<Rightarrow> TPart) \<Rightarrow> TPart list \<Rightarrow> error + TPart list" where
  "onLast f parts = (if parts = [] then Inl TypeError else Inr (butlast parts @ [f (last parts)]))"

definition orEmpty :: "'a list option \<Rightarrow> 'a list" where
  "orEmpty x = (case x of None \<Rightarrow> [] | Some xs \<Rightarrow> xs)"

fun parser_loop :: "TPart list \<Rightarrow> string \<Rightarrow> TToken list \<Rightarrow> error + TPart list" where
  "parser_loop parts st [] = Inr parts"
| "parser_loop parts st ((type, v) # rest) =
    (if type = ''/'' then parser_loop (parts @ [newPart (asNumber v)]) type rest
     else if type = '':'' then
       (case onLast (\<lambda>l. l\<lparr>offset := Some (asNumber v)\<rparr>) parts of
          Inl e \<Rightarrow> Inl e | Inr ps \<Rightarrow> parser_loop ps type rest)
     else if type = ''~'' then
       (case onLast (\<lambda>l. l\<lparr>temporal := Some (asNumber v)\<rparr>) parts of
          Inl e \<Rightarrow> Inl e | Inr ps \<Rightarrow> parser_loop ps type rest)
     else if type = ''@'' then
       (case onLast (\<lambda>l. l\<lparr>spatial := Some (orEmpty (spatial l) @ [asNumber v])\<rparr>) parts of
          Inl e \<Rightarrow> Inl e | Inr ps \<Rightarrow> parser_loop ps type rest)
     else if type = '';s'' then
       (case onLast (\<lambda>l. l\<lparr>side := Some (asString v)\<rparr>) parts of
          Inl e \<Rightarrow> Inl e | Inr ps \<Rightarrow> parser_loop ps type rest)
     else if type = ''['' then
       (if st = ''/'' \<and> truthy v then
          (case onLast (\<lambda>l. l\<lparr>id' := Some (asString v)\<rparr>) parts of
             Inl e \<Rightarrow> Inl e | Inr ps \<Rightarrow> parser_loop ps type rest)
        else
          (case onLast (\<lambda>l. l\<lparr>text' := Some (orEmpty (text' l) @ [asString v])\<rparr>) parts of
             Inl e \<Rightarrow> Inl e | Inr ps \<Rightarrow> parser_loop ps st rest))
     else parser_loop parts type rest)"

definition parser :: "TToken list \<Rightarrow> error + TPart list" where
  "parser toks = parser_loop [] [] toks"


section \<open>Splitting at the indirection and range markers\<close>

text \<open>
  \<^verbatim>\<open>findIndices\<close> with the predicate of \<^verbatim>\<open>findTokens\<close>: the positions of the tokens of
  type \<open>x\<close>.
\<close>

definition findTokens :: "TToken list \<Rightarrow> string \<Rightarrow> nat list" where
  "findTokens toks x = filter (\<lambda>i. fst (toks ! i) = x) [0..<length toks]"

text \<open>
  \<^verbatim>\<open>[-1, ...is, arr.length].reduce(({xs, a}, b) => ({xs: xs.concat([arr.slice(a + 1, b)]), a: b}),
  {xs: [], a: -1}).xs\<close>.  The reduction starts from an accumulator that already holds
  \<open>a = -1\<close> and runs over a list that starts with \<open>-1\<close> again.
\<close>

definition splitAt :: "'a list \<Rightarrow> nat list \<Rightarrow> 'a list list" where
  "splitAt arr is =
    fst (foldl (\<lambda>(xs, a) b. (xs @ [slice arr (a + 1) b], b)) ([], - 1)
          ([- 1] @ map int is @ [int (length arr)]))"

text \<open>\<^verbatim>\<open>xs.map(f)\<close> for an \<open>f\<close> that can raise: the first exception ends the map.\<close>

fun mapE :: "('a \<Rightarrow> error + 'b) \<Rightarrow> 'a list \<Rightarrow> error + 'b list" where
  "mapE f [] = Inr []"
| "mapE f (x # xs) =
    (case f x of Inl e \<Rightarrow> Inl e
     | Inr y \<Rightarrow> (case mapE f xs of Inl e \<Rightarrow> Inl e | Inr ys \<Rightarrow> Inr (y # ys)))"

definition parserIndir :: "TToken list \<Rightarrow> error + TPart list list" where
  "parserIndir toks = mapE parser (splitAt toks (findTokens toks ''!''))"

record TParsed =
  parent :: "TPart list list"
  start :: "TPart list list"
  end' :: "TPart list list"

text \<open>What \<^verbatim>\<open>parse\<close> returns and the serializer takes: \<^verbatim>\<open>TPart[][] | TParsed\<close>.\<close>

datatype parsed = Parts "TPart list list" | Parsed TParsed

text \<open>
  \<^verbatim>\<open>parse\<close>.  The destructuring \<^verbatim>\<open>[parent, start, end]\<close> always finds three elements,
  since \<open>splitAt\<close> returns two more lists than it is given positions (lemma
  \<open>splitAt_length\<close>); the last case below is there for totality only.
\<close>

definition parse :: "string \<Rightarrow> error + parsed" where
  "parse cfi =
    (let toks = tokenizer (unwrap cfi);
         commas = findTokens toks '',''
     in if commas = [] then map_sum id Parts (parserIndir toks)
        else (case mapE parserIndir (splitAt toks commas) of
                Inl e \<Rightarrow> Inl e
              | Inr (p # s # e # _) \<Rightarrow> Inr (Parsed \<lparr>parent = p, start = s, end' = e\<rparr>)
              | Inr _ \<Rightarrow> Inl TypeError))"


section \<open>Serializer\<close>

text \<open>\<^verbatim>\<open>param = side ? `;s=${side}` : ''\<close>.\<close>

definition param :: "string option \<Rightarrow> string" where
  "param sd = (if truthyStr sd then '';s='' @ the sd else [])"

definition partToString :: "TPart \<Rightarrow> string" where
  "partToString p =
    (let param = param (side p)
     in ''/'' @ numToString (index p)
        @ (if truthyStr (id' p) then ''['' @ escapeCFI (the (id' p)) @ param @ '']'' else [])
        @ (if offset p \<noteq> None \<and> mod2Truthy (index p) then '':'' @ numToString (the (offset p))
           else [])
        @ (case temporal p of None \<Rightarrow> []
           | Some t \<Rightarrow> if truthyNum t then ''~'' @ numToString t else [])
        @ (case spatial p of None \<Rightarrow> [] | Some sp \<Rightarrow> ''@'' @ join '':'' (map numToString sp))
        @ (if text' p \<noteq> None \<or> (\<not> truthyStr (id' p) \<and> truthyStr (side p))
           then ''['' @ (case text' p of None \<Rightarrow> [] | Some ts \<Rightarrow> join '','' (map escapeCFI ts))
                @ param @ '']''
           else []))"

text \<open>\<^verbatim>\<open>parts.map(partToString).join('')\<close> and its \<^verbatim>\<open>join('!')\<close> over the Paths.\<close>

definition pathToString :: "TPart list \<Rightarrow> string" where
  "pathToString parts = concat (map partToString parts)"

definition pathsToString :: "TPart list list \<Rightarrow> string" where
  "pathsToString ps = join ''!'' (map pathToString ps)"

definition toInnerString :: "parsed \<Rightarrow> string" where
  "toInnerString x =
    (case x of
       Parsed r \<Rightarrow> join '','' (map pathsToString [parent r, start r, end' r])
     | Parts ps \<Rightarrow> pathsToString ps)"

definition toString :: "parsed \<Rightarrow> string" where
  "toString x = wrap (toInnerString x)"

section \<open>Auxiliary notions for the proofs about the tokenizer\<close>

text \<open>
  The tokenizer states that occur between the Parts of a serialized Path: \<open>idle\<close>, outside
  every construct, and \<open>pend\<close>, inside a construct with accumulated text \<open>v\<close>.
\<close>

definition idle :: "TToken list \<Rightarrow> tokenizer_state" where
  "idle T = \<lparr>tokens = T, state = None, escape = False, value' = []\<rparr>"

definition pend :: "TToken list \<Rightarrow> string \<Rightarrow> string \<Rightarrow> tokenizer_state" where
  "pend T st v = \<lparr>tokens = T, state = Some st, escape = False, value' = v\<rparr>"

text \<open>
  A state at a boundary is idle (\<open>None\<close>), inside a step, offset, temporal or spatial
  number, or right after an indirection marker (\<open>Some (st, v)\<close>); \<open>fl\<close> is the token
  list once the pending token, if any, is pushed.
\<close>

definition mk :: "TToken list \<Rightarrow> (string \<times> string) option \<Rightarrow> tokenizer_state" where
  "mk T k = (case k of None \<Rightarrow> idle T | Some (st, v) \<Rightarrow> pend T st v)"

definition fl :: "TToken list \<Rightarrow> (string \<times> string) option \<Rightarrow> TToken list" where
  "fl T k =
    (case k of None \<Rightarrow> T
     | Some (st, v) \<Rightarrow>
         T @ [(st, if st = ''!'' then Undefined
                   else if st = ''~'' \<or> st = ''@'' then Number (parseFloat v)
                   else Number (parseInt v))])"

definition boundary :: "(string \<times> string) option \<Rightarrow> bool" where
  "boundary k =
    (case k of None \<Rightarrow> True
     | Some (st, v) \<Rightarrow> st = ''/'' \<or> st = '':'' \<or> st = ''~'' \<or> st = ''@'' \<or> (st = ''!'' \<and> v = []))"

text \<open>
  Inside a spatial number a colon separates two coordinates instead of opening an offset.
\<close>

definition spatialState :: "(string \<times> string) option \<Rightarrow> bool" where
  "spatialState k = (case k of None \<Rightarrow> False | Some (st, v) \<Rightarrow> st = ''@'')"

abbreviation run :: "tokenizer_state \<Rightarrow> string list \<Rightarrow> tokenizer_state" where
  "run \<equiv> foldl tokenizer_step"

text \<open>The tokens that \<open>param\<close> and a list of text assertions are read back as.\<close>

definition sideToks :: "string option \<Rightarrow> TToken list" where
  "sideToks sd = (case sd of None \<Rightarrow> [] | Some x \<Rightarrow> [('';s'', Str x)])"

definition textToks :: "string list \<Rightarrow> TToken list" where
  "textToks ts = map (\<lambda>t. (''['', Str t)) ts"

text \<open>
  \<open>reads a b str toks\<close>: from every boundary state (inside a spatial number only if
  \<open>a\<close>), the tokenizer that consumes \<open>str\<close> is at a boundary state again (inside a
  spatial number only if \<open>b\<close>) and has produced, or is about to push, the tokens \<open>toks\<close>.
\<close>

definition reads :: "bool \<Rightarrow> bool \<Rightarrow> string \<Rightarrow> TToken list \<Rightarrow> bool" where
  "reads a b str toks =
    (\<forall>T k. boundary k \<and> (spatialState k \<longrightarrow> a) \<longrightarrow>
      (\<exists>T' k'. boundary k' \<and> (spatialState k' \<longrightarrow> b)
         \<and> run (mk T k) (chars str) = mk T' k' \<and> fl T' k' = fl T k @ toks))"

text \<open>A number that is a non-negative integer which a double holds exactly.\<close>

definition natural :: "number \<Rightarrow> bool" where
  "natural x = (case x of Num i \<Rightarrow> 0 \<le> i \<and> i \<le> 2 ^ 53 - 1 | _ \<Rightarrow> False)"

text \<open>
  A number that a template literal renders in plain decimal digits and that
  \<^verbatim>\<open>parseFloat\<close> reads back from them, for doubles as for the exact numbers here: a
  non-negative integer which a double holds exactly, or a decimal \<open>i.f\<close> of at most 15
  significant digits that is not below \<^verbatim>\<open>0.000001\<close> (at most five zeros after the point
  when \<open>i = 0\<close>), with fraction digits \<open>f\<close> that do not end in a zero.
\<close>

definition plain :: "number \<Rightarrow> bool" where
  "plain x =
    (case x of
       NaN \<Rightarrow> False
     | Num i \<Rightarrow> 0 \<le> i \<and> i \<le> 2 ^ 53 - 1
     | Dec i f \<Rightarrow>
         f \<noteq> [] \<and> list_all isDigit f \<and> last f \<noteq> CHR ''0''
         \<and> (if i = 0 then length (takeWhile (\<lambda>c. c = CHR ''0'') f) \<le> 5
                          \<and> length (dropWhile (\<lambda>c. c = CHR ''0'') f) \<le> 15
             else length (showNat i) + length f \<le> 15))"

text \<open>
  A number on which the exact numbers here agree with doubles in how they are rendered:
  \<^verbatim>\<open>NaN\<close>, an integer which a double holds exactly, or a plain decimal.
\<close>

definition exact :: "number \<Rightarrow> bool" where
  "exact x =
    (case x of NaN \<Rightarrow> True | Num i \<Rightarrow> - (2 ^ 53 - 1) \<le> i \<and> i \<le> 2 ^ 53 - 1
     | Dec i f \<Rightarrow> plain (Dec i f))"

text \<open>
  An index as \<^verbatim>\<open>parseInt\<close> or \<^verbatim>\<open>findIndex\<close> gives it: \<^verbatim>\<open>NaN\<close> or an integer which a
  double holds exactly; and the odd ones among them.
\<close>

definition wholeIndex :: "number \<Rightarrow> bool" where
  "wholeIndex n = (case n of NaN \<Rightarrow> True | Num i \<Rightarrow> exact (Num i) | Dec i f \<Rightarrow> False)"

definition oddIndex :: "number \<Rightarrow> bool" where
  "oddIndex n = (case n of Num i \<Rightarrow> odd i | _ \<Rightarrow> False)"

text \<open>
  A Part whose index is such an index and whose temporal and spatial numbers are exact (the
  offset aside).
\<close>

definition exactPart :: "TPart \<Rightarrow> bool" where
  "exactPart p =
    (wholeIndex (index p)
     \<and> (case temporal p of None \<Rightarrow> True | Some t \<Rightarrow> exact t)
     \<and> (case spatial p of None \<Rightarrow> True | Some sp \<Rightarrow> list_all exact sp))"

definition okSide :: "string option \<Rightarrow> bool" where
  "okSide sd = (sd = None \<or> sd = Some ''before'' \<or> sd = Some ''after'')"

text \<open>
  The Parts that the serializer renders in full and the parser reads back unchanged:
  \<^item> the index is a non-negative integer;
  \<^item> an offset, if set, is a non-negative integer and sits on an odd index (the serializer
    drops it otherwise);
  \<^item> a temporal value, if set, is a plain number other than zero (the serializer drops a
    zero);
  \<^item> a spatial value, if set, is a non-empty list of plain numbers (the serializer renders the
    empty list as a bare \<^verbatim>\<open>@\<close>, which is read back as \<^verbatim>\<open>[NaN]\<close>);
  \<^item> the side is absent, \<^verbatim>\<open>before\<close> or \<^verbatim>\<open>after\<close>;
  \<^item> an id, if set, is not empty (the serializer drops an empty one);
  \<^item> a text list, if set, is not empty, and when the Part has no id, offset, temporal or
    spatial value all its strings are empty (the parser would take the first non-empty one
    for the id);
  \<^item> a side comes with an id or a text list (the serializer emits it inside their brackets).
\<close>

definition canonicalPart :: "TPart \<Rightarrow> bool" where
  "canonicalPart p =
    (natural (index p)
     \<and> (case offset p of None \<Rightarrow> True | Some m \<Rightarrow> natural m \<and> mod2Truthy (index p))
     \<and> (case temporal p of None \<Rightarrow> True | Some t \<Rightarrow> plain t \<and> truthyNum t)
     \<and> (case spatial p of None \<Rightarrow> True | Some sp \<Rightarrow> sp \<noteq> [] \<and> list_all plain sp)
     \<and> okSide (side p)
     \<and> (case id' p of None \<Rightarrow> True | Some s \<Rightarrow> s \<noteq> [])
     \<and> (case text' p of
          None \<Rightarrow> side p = None \<or> id' p \<noteq> None
        | Some ts \<Rightarrow> ts \<noteq> [] \<and> (id' p \<noteq> None \<or> offset p \<noteq> None \<or> temporal p \<noteq> None
                                  \<or> spatial p \<noteq> None \<or> list_all (\<lambda>t. t = []) ts)))"

text \<open>The tokens of a canonical Part, in the order in which the serializer renders them.\<close>

definition spatialToks :: "number list \<Rightarrow> TToken list" where
  "spatialToks sp = map (\<lambda>x. (''@'', Number x)) sp"

definition partTokens :: "TPart \<Rightarrow> TToken list" where
  "partTokens p =
    [(''/'', Number (index p))]
    @ (case id' p of None \<Rightarrow> [] | Some s \<Rightarrow> (''['', Str s) # sideToks (side p))
    @ (case offset p of None \<Rightarrow> [] | Some m \<Rightarrow> [('':'', Number m)])
    @ (case temporal p of None \<Rightarrow> [] | Some t \<Rightarrow> [(''~'', Number t)])
    @ (case spatial p of None \<Rightarrow> [] | Some sp \<Rightarrow> spatialToks sp)
    @ (case text' p of None \<Rightarrow> [] | Some ts \<Rightarrow> textToks ts @ sideToks (side p))"

text \<open>A string that is empty, or starts with a marker of the grammar and ends in no blank.\<close>

definition neat :: "string \<Rightarrow> bool" where
  "neat s = (s = [] \<or> (hd s \<in> set ''/:~@[!'' \<and> \<not> isSpace (last s)))"

text \<open>
  One round of the loop of \<open>parser\<close>, as a function of the Parts and the state so far
  (lemma \<open>parser_loop_step\<close> relates it to \<open>parser_loop\<close>).
\<close>

definition parser_step :: "TPart list \<Rightarrow> string \<Rightarrow> TToken \<Rightarrow> error + (TPart list \<times> string)" where
  "parser_step parts st t =
    (case t of (type, v) \<Rightarrow>
      if type = ''/'' then Inr (parts @ [newPart (asNumber v)], type)
      else if type = '':'' then
        map_sum id (\<lambda>ps. (ps, type)) (onLast (\<lambda>l. l\<lparr>offset := Some (asNumber v)\<rparr>) parts)
      else if type = ''~'' then
        map_sum id (\<lambda>ps. (ps, type)) (onLast (\<lambda>l. l\<lparr>temporal := Some (asNumber v)\<rparr>) parts)
      else if type = ''@'' then
        map_sum id (\<lambda>ps. (ps, type))
          (onLast (\<lambda>l. l\<lparr>spatial := Some (orEmpty (spatial l) @ [asNumber v])\<rparr>) parts)
      else if type = '';s'' then
        map_sum id (\<lambda>ps. (ps, type)) (onLast (\<lambda>l. l\<lparr>side := Some (asString v)\<rparr>) parts)
      else if type = ''['' then
        (if st = ''/'' \<and> truthy v then
           map_sum id (\<lambda>ps. (ps, type)) (onLast (\<lambda>l. l\<lparr>id' := Some (asString v)\<rparr>) parts)
         else
           map_sum id (\<lambda>ps. (ps, st))
             (onLast (\<lambda>l. l\<lparr>text' := Some (orEmpty (text' l) @ [asString v])\<rparr>) parts))
      else Inr (parts, type))"

text \<open>The loop of \<open>parser\<close> with the state it ends in.\<close>

fun parser_run :: "TPart list \<Rightarrow> string \<Rightarrow> TToken list \<Rightarrow> error + (TPart list \<times> string)" where
  "parser_run parts st [] = Inr (parts, st)"
| "parser_run parts st (t # rest) =
    (case parser_step parts st t of Inl e \<Rightarrow> Inl e | Inr (ps, st') \<Rightarrow> parser_run ps st' rest)"

text \<open>
  A token stream after which the parser still looks for the id of the current Part: its
  last token that is not an assertion with a falsy payload is a Step token.
\<close>

definition emptyAssertion :: "TToken \<Rightarrow> bool" where
  "emptyAssertion t = (fst t = ''['' \<and> \<not> truthy (snd t))"

definition afterStep :: "TToken list \<Rightarrow> bool" where
  "afterStep ts = (case dropWhile emptyAssertion (rev ts) of [] \<Rightarrow> False | t # _ \<Rightarrow> fst t = ''/'')"

text \<open>
  A token list in which a Step token comes before every token that the parser records on
  the current Part: it starts, after indirection tokens if any, with a Step token.
\<close>

definition guarded :: "TToken list \<Rightarrow> bool" where
  "guarded ts = (case dropWhile (\<lambda>t. fst t = ''!'') ts of [] \<Rightarrow> True | t # _ \<Rightarrow> fst t = ''/'')"

text \<open>
  The slices that the reduction of \<open>splitAt\<close> appends from the position \<open>a\<close> on, for the
  bounds \<open>bs\<close> that are left.
\<close>

fun segments :: "'a list \<Rightarrow> int \<Rightarrow> int list \<Rightarrow> 'a list list" where
  "segments arr a [] = []"
| "segments arr a (b # bs) = slice arr (a + 1) b # segments arr b bs"

section \<open>Range builder\<close>

text \<open>
  \<^verbatim>\<open>a.slice(0, -1).concat([a[a.length - 1]!.concat(b[0] ?? [])]).concat(b.slice(1))\<close>; the
  call of \<^verbatim>\<open>concat\<close> on \<^verbatim>\<open>a[a.length - 1]\<close> raises when \<open>a\<close> is empty.
\<close>

definition concatArrays :: "TPart list list \<Rightarrow> TPart list list \<Rightarrow> error + TPart list list" where
  "concatArrays a b =
    (if a = [] then Inl TypeError
     else Inr (butlast a @ [last a @ (case b of [] \<Rightarrow> [] | b0 # _ \<Rightarrow> b0)] @ drop 1 b))"

definition collapse :: "parsed \<Rightarrow> bool \<Rightarrow> error + TPart list list" where
  "collapse x toEnd =
    (case x of
       Parsed r \<Rightarrow> concatArrays (parent r) (if toEnd then end' r else start r)
     | Parts ps \<Rightarrow> Inr ps)"

text \<open>\<^verbatim>\<open>!a?.offset\<close> for a Part \<open>a\<close>: no offset, or the offset \<^verbatim>\<open>0\<close> or \<^verbatim>\<open>NaN\<close>.\<close>

definition noOffset :: "TPart \<Rightarrow> bool" where
  "noOffset a = (case offset a of None \<Rightarrow> True | Some m \<Rightarrow> \<not> truthyNum m)"

text \<open>
  The loop of \<^verbatim>\<open>buildRange\<close> over \<^verbatim>\<open>i < max(localFrom.length, localTo.length)\<close>, with
  \<open>a = localFrom[i]\<close> and \<open>b = localTo[i]\<close>; the result is
  \<open>(localParent, localStart, localEnd)\<close>.  When one of the two lists has ended, \<open>a\<close> or
  \<open>b\<close> is \<^verbatim>\<open>undefined\<close>, \<^verbatim>\<open>a?.index === b?.index\<close> compares a number with
  \<^verbatim>\<open>undefined\<close> and \<open>pushToParent\<close> becomes false.
\<close>

fun rangeLoop :: "bool \<Rightarrow> TPart list \<Rightarrow> TPart list \<Rightarrow> TPart list \<times> TPart list \<times> TPart list" where
  "rangeLoop pushToParent [] [] = ([], [], [])"
| "rangeLoop pushToParent (a # localFrom) [] =
    (case rangeLoop False localFrom [] of (lp, ls, le) \<Rightarrow> (lp, a # ls, le))"
| "rangeLoop pushToParent [] (b # localTo) =
    (case rangeLoop False [] localTo of (lp, ls, le) \<Rightarrow> (lp, ls, b # le))"
| "rangeLoop pushToParent (a # localFrom) (b # localTo) =
    (let pushToParent' = (pushToParent \<and> numEq (index a) (index b) \<and> noOffset a \<and> noOffset b)
     in case rangeLoop pushToParent' localFrom localTo of
          (lp, ls, le) \<Rightarrow> if pushToParent' then (a # lp, ls, le) else (lp, a # ls, b # le))"

text \<open>
  The object that \<^verbatim>\<open>buildRange\<close> hands to \<^verbatim>\<open>toString\<close>.  \<^verbatim>\<open>from[from.length - 1]\<close> and
  \<^verbatim>\<open>to[to.length - 1]\<close> are \<^verbatim>\<open>undefined\<close> for an empty list of Paths; the loop then
  raises at \<^verbatim>\<open>localFrom[i]\<close> or \<^verbatim>\<open>localTo[i]\<close> if it runs at all.
\<close>

definition buildRangeParsed :: "parsed \<Rightarrow> parsed \<Rightarrow> error + TParsed" where
  "buildRangeParsed from to =
    (case collapse from False of
       Inl e \<Rightarrow> Inl e
     | Inr f \<Rightarrow>
         (case collapse to True of
            Inl e \<Rightarrow> Inl e
          | Inr t \<Rightarrow>
              (let localFrom = (if f = [] then None else Some (last f));
                   localTo = (if t = [] then None else Some (last t));
                   len = max (length (orEmpty localFrom)) (length (orEmpty localTo))
               in if 0 < len \<and> (localFrom = None \<or> localTo = None) then Inl TypeError
                  else (case rangeLoop True (orEmpty localFrom) (orEmpty localTo) of
                          (localParent, localStart, localEnd) \<Rightarrow>
                            Inr \<lparr>parent = butlast f @ [localParent], start = [localStart],
                                 end' = [localEnd]\<rparr>))))"

definition buildRange :: "parsed \<Rightarrow> parsed \<Rightarrow> error + string" where
  "buildRange from to = map_sum id (\<lambda>r. toString (Parsed r)) (buildRangeParsed from to)"

text \<open>
  The notion of the specification: the length of the longest prefix on which two Paths agree
  in their step indices with no offset on either side.
\<close>

definition agree :: "TPart \<times> TPart \<Rightarrow> bool" where
  "agree ab = (case ab of (a, b) \<Rightarrow> numEq (index a) (index b) \<and> noOffset a \<and> noOffset b)"

definition commonPrefix :: "TPart list \<Rightarrow> TPart list \<Rightarrow> nat" where
  "commonPrefix xs ys = length (takeWhile agree (zip xs ys))"

section \<open>Document tree\<close>

text \<open>
  The host's document: a tree of nodes, each with its \<^verbatim>\<open>nodeType\<close>, its \<^verbatim>\<open>id\<close> (read
  for elements only), its \<^verbatim>\<open>nodeValue\<close> (read for text nodes only) and its
  \<^verbatim>\<open>childNodes\<close>.  The root of the tree is the Document node.  A node of the document is
  referred to by its position, the list of child numbers that leads to it from the root,
  together with its subtree; two references are the same node (\<^verbatim>\<open>===\<close>) when their
  positions are equal.
\<close>

datatype node = Node (nodeType: nat) (nodeId: string) (nodeValue: string) (childNodes: "node list")

type_synonym handle = "nat list"

type_synonym ref = "handle \<times> node"

definition sameNode :: "ref \<Rightarrow> ref \<Rightarrow> bool" where
  "sameNode x y = (fst x = fst y)"

fun lookup :: "node \<Rightarrow> handle \<Rightarrow> node option" where
  "lookup n [] = Some n"
| "lookup n (i # h) = (if i < length (childNodes n) then lookup (childNodes n ! i) h else None)"

text \<open>\<^verbatim>\<open>node.parentNode\<close>: \<^verbatim>\<open>null\<close> for the Document node.\<close>

definition parentNode :: "node \<Rightarrow> ref \<Rightarrow> ref option" where
  "parentNode doc r =
    (if fst r = [] then None
     else map_option (\<lambda>n. (butlast (fst r), n)) (lookup doc (butlast (fst r))))"

definition isTextNode :: "ref \<Rightarrow> bool" where
  "isTextNode r = (nodeType (snd r) = 3 \<or> nodeType (snd r) = 4)"

definition isElementNode :: "ref \<Rightarrow> bool" where
  "isElementNode r = (nodeType (snd r) = 1)"

text \<open>The children of a node, as references.\<close>

definition children :: "ref \<Rightarrow> ref list" where
  "children r = map (\<lambda>i. (fst r @ [i], childNodes (snd r) ! i)) [0..<length (childNodes (snd r))]"

text \<open>\<^verbatim>\<open>doc.documentElement\<close>: the element child of the Document node, if any.\<close>

definition documentElement :: "node \<Rightarrow> ref option" where
  "documentElement doc = (case filter isElementNode (children ([], doc)) of [] \<Rightarrow> None | r # _ \<Rightarrow> Some r)"

text \<open>\<^verbatim>\<open>node.firstChild\<close> and \<^verbatim>\<open>node.lastChild\<close>.\<close>

definition firstChild :: "ref \<Rightarrow> ref option" where
  "firstChild r = (case children r of [] \<Rightarrow> None | c # _ \<Rightarrow> Some c)"

definition lastChild :: "ref \<Rightarrow> ref option" where
  "lastChild r = (if children r = [] then None else Some (last (children r)))"

text \<open>
  \<^verbatim>\<open>doc.getElementById(id)\<close>: the first element in document order with this id.
\<close>

fun findById :: "string \<Rightarrow> handle \<Rightarrow> node \<Rightarrow> ref option"
  and findByIds :: "string \<Rightarrow> handle \<Rightarrow> nat \<Rightarrow> node list \<Rightarrow> ref option" where
  "findById i h (Node t ni v cs) =
    (if t = 1 \<and> ni = i then Some (h, Node t ni v cs) else findByIds i h 0 cs)"
| "findByIds i h k [] = None"
| "findByIds i h k (c # cs) =
    (case findById i (h @ [k]) c of Some r \<Rightarrow> Some r | None \<Rightarrow> findByIds i h (Suc k) cs)"

definition getElementById :: "node \<Rightarrow> string \<Rightarrow> ref option" where
  "getElementById doc i = findByIds i [] 0 (childNodes doc)"


section \<open>Tree indexer\<close>

text \<open>\<^verbatim>\<open>NodeFilter.FILTER_REJECT\<close> and \<^verbatim>\<open>NodeFilter.FILTER_SKIP\<close>.\<close>

definition FILTER_REJECT :: nat where "FILTER_REJECT = 2"

definition FILTER_SKIP :: nat where "FILTER_SKIP = 3"

text \<open>
  \<^verbatim>\<open>getChildNodes(node, filter)\<close>: the element and text children; with a filter, a rejected
  child is left out and a skipped child is replaced by its own filtered children
  (\<^verbatim>\<open>map\<close>, \<^verbatim>\<open>flat\<close> and \<^verbatim>\<open>filter\<close> of the source in one pass over the children, \<open>k\<close>
  counting them).
\<close>

fun getChildNodes :: "(ref \<Rightarrow> nat) option \<Rightarrow> ref \<Rightarrow> ref list"
  and getChildNodesFrom :: "(ref \<Rightarrow> nat) option \<Rightarrow> handle \<Rightarrow> nat \<Rightarrow> node list \<Rightarrow> ref list" where
  "getChildNodes flt (h, Node t ni v cs) = getChildNodesFrom flt h 0 cs"
| "getChildNodesFrom flt h k [] = []"
| "getChildNodesFrom flt h k (c # cs) =
    (if isTextNode (h @ [k], c) \<or> isElementNode (h @ [k], c) then
       (case flt of
          None \<Rightarrow> [(h @ [k], c)]
        | Some f \<Rightarrow>
            if f (h @ [k], c) = FILTER_REJECT then []
            else if f (h @ [k], c) = FILTER_SKIP then getChildNodes flt (h @ [k], c)
            else [(h @ [k], c)])
     else [])
    @ getChildNodesFrom flt h (Suc k) cs"

text \<open>
  An entry of the indexed child list: a node, a chunk of text nodes, the \<^verbatim>\<open>null\<close> between
  two elements, or one of the strings \<^verbatim>\<open>'before'\<close>, \<^verbatim>\<open>'first'\<close>, \<^verbatim>\<open>'last'\<close>,
  \<^verbatim>\<open>'after'\<close>.
\<close>

datatype mark = MBefore | MFirst | MLast | MAfter

datatype slot = SNode ref | SChunk "ref list" | SNull | SMark mark

text \<open>
  \<^verbatim>\<open>isElementNode(x)\<close> on an entry of the list destructures \<^verbatim>\<open>nodeType\<close> from its
  argument: an array or a string has none, \<^verbatim>\<open>undefined\<close> (\<open>None\<close>) and \<^verbatim>\<open>null\<close> raise.
\<close>

definition slotIsElement :: "slot option \<Rightarrow> error + bool" where
  "slotIsElement x =
    (case x of None \<Rightarrow> Inl TypeError | Some SNull \<Rightarrow> Inl TypeError
     | Some (SNode r) \<Rightarrow> Inr (isElementNode r) | Some _ \<Rightarrow> Inr False)"

text \<open>\<^verbatim>\<open>arr[arr.length - 1]\<close> and \<^verbatim>\<open>arr[0]\<close>: \<^verbatim>\<open>undefined\<close> on the empty array.\<close>

definition lastOpt :: "'a list \<Rightarrow> 'a option" where
  "lastOpt xs = (if xs = [] then None else Some (last xs))"

definition firstOpt :: "'a list \<Rightarrow> 'a option" where
  "firstOpt xs = (case xs of [] \<Rightarrow> None | x # _ \<Rightarrow> Some x)"

text \<open>
  The function that \<^verbatim>\<open>indexChildNodes\<close> reduces the child nodes with.  \<open>last\<close> is falsy
  when the array is empty or ends in \<^verbatim>\<open>null\<close>; the calls of \<^verbatim>\<open>isTextNode(last)\<close> and
  \<^verbatim>\<open>isElementNode(last)\<close> are reached with a node only.
\<close>

definition reducer :: "slot list \<Rightarrow> ref \<Rightarrow> slot list" where
  "reducer arr node =
    (case lastOpt arr of
       None \<Rightarrow> arr @ [SNode node]
     | Some SNull \<Rightarrow> arr @ [SNode node]
     | Some lst \<Rightarrow>
         if isTextNode node then
           (case lst of
              SChunk c \<Rightarrow> butlast arr @ [SChunk (c @ [node])]
            | SNode l \<Rightarrow> if isTextNode l then butlast arr @ [SChunk [l, node]]
                         else arr @ [SNode node]
            | _ \<Rightarrow> arr @ [SNode node])
         else
           (case lst of
              SNode l \<Rightarrow> if isElementNode l then arr @ [SNull, SNode node] else arr @ [SNode node]
            | _ \<Rightarrow> arr @ [SNode node]))"

text \<open>
  \<^verbatim>\<open>indexChildNodes(node, filter)\<close>.  \<^verbatim>\<open>isElementNode(nodes[0])\<close> is evaluated first, on
  \<^verbatim>\<open>undefined\<close> when the reduced list is empty.
\<close>

definition indexChildNodes :: "(ref \<Rightarrow> nat) option \<Rightarrow> ref \<Rightarrow> error + slot list" where
  "indexChildNodes flt node =
    (let nodes = foldl reducer [] (getChildNodes flt node)
     in (case slotIsElement (firstOpt nodes) of
           Inl e \<Rightarrow> Inl e
         | Inr isEl \<Rightarrow>
             (let nodes1 = (if isEl then SMark MFirst # nodes else nodes)
              in (case slotIsElement (lastOpt nodes1) of
                    Inl e \<Rightarrow> Inl e
                  | Inr isEl' \<Rightarrow>
                      (let nodes2 = (if isEl' then nodes1 @ [SMark MLast] else nodes1)
                       in Inr (SMark MBefore # nodes2 @ [SMark MAfter]))))))"

text \<open>Notions for stating the indexing convention: an entry that is an element child.\<close>

definition isElemSlot :: "slot \<Rightarrow> bool" where
  "isElemSlot s = (case s of SNode r \<Rightarrow> isElementNode r | _ \<Rightarrow> False)"

fun alternates :: "slot list \<Rightarrow> bool" where
  "alternates [] = True"
| "alternates [s] = True"
| "alternates (s # t # ss) = (isElemSlot s \<noteq> isElemSlot t \<and> alternates (t # ss))"

definition elemsOf :: "slot list \<Rightarrow> ref list" where
  "elemsOf arr = concat (map (\<lambda>s. case s of SNode r \<Rightarrow> if isElementNode r then [r] else [] | _ \<Rightarrow> []) arr)"

definition nodeSlot :: "slot \<Rightarrow> bool" where
  "nodeSlot s = (case s of SNode r \<Rightarrow> isTextNode r \<or> isElementNode r | SChunk c \<Rightarrow> True
                 | SNull \<Rightarrow> True | SMark m \<Rightarrow> False)"

definition reduced :: "slot list \<Rightarrow> bool" where
  "reduced arr = (list_all nodeSlot arr \<and> alternates arr \<and> lastOpt arr \<noteq> Some SNull
                  \<and> firstOpt arr \<noteq> Some SNull)"

section \<open>Path to node\<close>

text \<open>
  What the variable \<^verbatim>\<open>node\<close> of \<^verbatim>\<open>partsToNode\<close> holds during the walk: a node, a chunk,
  \<^verbatim>\<open>null\<close> or \<^verbatim>\<open>undefined\<close>.
\<close>

datatype cur = CNode ref | CChunk "ref list" | CNull | CUndefined

text \<open>
  The results of \<^verbatim>\<open>partsToNode\<close>: \<^verbatim>\<open>null\<close>; \<^verbatim>\<open>undefined\<close> (the function ends without
  a \<^verbatim>\<open>return\<close>); \<^verbatim>\<open>{node, offset}\<close>; \<^verbatim>\<open>{node}\<close>; \<^verbatim>\<open>{node, before: true}\<close>;
  \<^verbatim>\<open>{node, after: true}\<close>.
\<close>

datatype resolved =
  RNull | RUndefined | RNodeOffset cur number | RNode ref | RBefore ref | RAfter ref

text \<open>\<^verbatim>\<open>arr[index]\<close> for a number: an element for an integer within the array.\<close>

definition nthOpt :: "'a list \<Rightarrow> number \<Rightarrow> 'a option" where
  "nthOpt xs n =
    (case n of Num i \<Rightarrow> if 0 \<le> i \<and> i < int (length xs) then Some (xs ! nat i) else None
     | _ \<Rightarrow> None)"

text \<open>
  The loop \<^verbatim>\<open>for (const {index} of parts)\<close>: \<open>Inl\<close> of a result when a virtual marker
  ends the walk, \<open>Inr\<close> of the final \<^verbatim>\<open>node\<close> otherwise.  A chunk is truthy, and
  \<^verbatim>\<open>indexChildNodes\<close> of it raises at \<^verbatim>\<open>Array.from(node.childNodes)\<close>.
\<close>

fun walk :: "(ref \<Rightarrow> nat) option \<Rightarrow> cur \<Rightarrow> TPart list \<Rightarrow> error + (resolved + cur)" where
  "walk flt node [] = Inr (Inr node)"
| "walk flt node (p # ps) =
    (case node of
       CNode r \<Rightarrow>
         (case indexChildNodes flt r of
            Inl e \<Rightarrow> Inl e
          | Inr slots \<Rightarrow>
              (case nthOpt slots (index p) of
                 Some (SMark MFirst) \<Rightarrow>
                   Inr (Inl (RNode (case firstChild r of None \<Rightarrow> r | Some c \<Rightarrow> c)))
               | Some (SMark MLast) \<Rightarrow>
                   Inr (Inl (RNode (case lastChild r of None \<Rightarrow> r | Some c \<Rightarrow> c)))
               | Some (SMark MBefore) \<Rightarrow> Inr (Inl (RBefore r))
               | Some (SMark MAfter) \<Rightarrow> Inr (Inl (RAfter r))
               | Some (SNode r') \<Rightarrow> walk flt (CNode r') ps
               | Some (SChunk c) \<Rightarrow> walk flt (CChunk c) ps
               | Some SNull \<Rightarrow> walk flt CNull ps
               | None \<Rightarrow> walk flt CUndefined ps))
     | CChunk c \<Rightarrow> Inl TypeError
     | CNull \<Rightarrow> walk flt CNull ps
     | CUndefined \<Rightarrow> walk flt CNull ps)"

text \<open>\<^verbatim>\<open>x >= offset\<close> and \<^verbatim>\<open>offset - x\<close> for an integer \<open>x\<close>.\<close>

definition geNum :: "int \<Rightarrow> number \<Rightarrow> bool" where
  "geNum x n = (case n of NaN \<Rightarrow> False | Num i \<Rightarrow> i \<le> x | Dec i f \<Rightarrow> int i + 1 \<le> x)"

definition subNum :: "number \<Rightarrow> int \<Rightarrow> number" where
  "subNum n x = (case n of NaN \<Rightarrow> NaN | Num i \<Rightarrow> Num (i - x) | Dec i f \<Rightarrow> Dec (nat (int i - x)) f)"

text \<open>The loop over the text nodes of a chunk at the end of \<^verbatim>\<open>partsToNode\<close>.\<close>

fun chunkFind :: "ref list \<Rightarrow> number \<Rightarrow> int \<Rightarrow> resolved" where
  "chunkFind [] off acc = RUndefined"
| "chunkFind (n # ns) off acc =
    (let len = int (length (nodeValue (snd n)))
     in if geNum (acc + len) off then RNodeOffset (CNode n) (subNum off acc)
        else chunkFind ns off (acc + len))"

text \<open>
  \<^verbatim>\<open>partsToNode(node, parts, filter)\<close> in the document \<open>doc\<close> (the
  \<^verbatim>\<open>node.ownerDocument\<close>).  \<open>parts\<close> is \<open>None\<close> for \<^verbatim>\<open>undefined\<close>; on the empty list the
  destructuring of \<^verbatim>\<open>parts[parts.length - 1]\<close> raises.
\<close>

definition partsToNode ::
  "node \<Rightarrow> ref \<Rightarrow> TPart list option \<Rightarrow> (ref \<Rightarrow> nat) option \<Rightarrow> error + resolved" where
  "partsToNode doc node parts flt =
    (case parts of
       None \<Rightarrow> Inr RNull
     | Some ps \<Rightarrow>
         if ps = [] then Inl TypeError
         else
           (case (if truthyStr (id' (last ps)) then getElementById doc (the (id' (last ps)))
                  else None) of
              Some el \<Rightarrow> Inr (RNodeOffset (CNode el) (Num 0))
            | None \<Rightarrow>
                (case walk flt (CNode node) ps of
                   Inl e \<Rightarrow> Inl e
                 | Inr (Inl res) \<Rightarrow> Inr res
                 | Inr (Inr node') \<Rightarrow>
                     (case offset (last ps) of
                        None \<Rightarrow> Inr RNull
                      | Some off \<Rightarrow>
                          if \<not> truthyNum off then Inr RNull
                          else (case node' of
                                  CChunk c \<Rightarrow> Inr (chunkFind c off 0)
                                | _ \<Rightarrow> Inr (RNodeOffset node' off))))))"


section \<open>Node to path\<close>

text \<open>\<^verbatim>\<open>Array.prototype.findIndex\<close>: \<open>-1\<close> when no element satisfies the predicate.\<close>

fun findIndexFrom :: "int \<Rightarrow> ('a \<Rightarrow> bool) \<Rightarrow> 'a list \<Rightarrow> int" where
  "findIndexFrom k P [] = - 1"
| "findIndexFrom k P (x # xs) = (if P x then k else findIndexFrom (k + 1) P xs)"

definition findIndex :: "('a \<Rightarrow> bool) \<Rightarrow> 'a list \<Rightarrow> int" where
  "findIndex P xs = findIndexFrom 0 P xs"

text \<open>\<^verbatim>\<open>x + n\<close> for an integer \<open>x\<close> and a number \<open>n\<close>.\<close>

definition addNum :: "int \<Rightarrow> number \<Rightarrow> number" where
  "addNum x n = (case n of NaN \<Rightarrow> NaN | Num i \<Rightarrow> Num (x + i) | Dec i f \<Rightarrow> Dec (nat (x + int i)) f)"

text \<open>
  The loop of \<^verbatim>\<open>nodeToParts\<close> over a chunk: the lengths of the text nodes before
  \<open>node\<close>, plus \<^verbatim>\<open>offset ?? 0\<close>.
\<close>

fun chunkSum :: "ref list \<Rightarrow> ref \<Rightarrow> number option \<Rightarrow> int \<Rightarrow> number" where
  "chunkSum [] node off acc = Num acc"
| "chunkSum (x # xs) node off acc =
    (if sameNode x node then addNum acc (case off of None \<Rightarrow> Num 0 | Some n \<Rightarrow> n)
     else chunkSum xs node off (acc + int (length (nodeValue (snd x)))))"

text \<open>\<^verbatim>\<open>node.id\<close>: a string for an element, \<^verbatim>\<open>undefined\<close> for any other node.\<close>

definition idOf :: "ref \<Rightarrow> string option" where
  "idOf r = (if isElementNode r then Some (nodeId (snd r)) else None)"

definition inSlot :: "ref \<Rightarrow> slot \<Rightarrow> bool" where
  "inSlot node x =
    (case x of SChunk c \<Rightarrow> list_ex (\<lambda>y. sameNode y node) c | SNode r \<Rightarrow> sameNode r node
     | _ \<Rightarrow> False)"

text \<open>The Part \<^verbatim>\<open>{id, index, offset}\<close> that \<^verbatim>\<open>nodeToParts\<close> makes for \<open>node\<close>.\<close>

definition partOf :: "slot list \<Rightarrow> ref \<Rightarrow> number option \<Rightarrow> TPart" where
  "partOf indexed node off =
    (let index = findIndex (inSlot node) indexed;
         chunk = nthOpt indexed (Num index);
         off' = (case chunk of Some (SChunk c) \<Rightarrow> Some (chunkSum c node off 0) | _ \<Rightarrow> off)
     in (newPart (Num index))\<lparr>id' := idOf node, offset := off'\<rparr>)"

text \<open>\<^verbatim>\<open>parentNode !== node.ownerDocument.documentElement\<close>.\<close>

definition notDocumentElement :: "node \<Rightarrow> ref \<Rightarrow> bool" where
  "notDocumentElement doc r =
    (case documentElement doc of None \<Rightarrow> True | Some d \<Rightarrow> \<not> sameNode r d)"

text \<open>
  \<^verbatim>\<open>nodeToParts(node, offset, filter)\<close>.  For the Document node \<^verbatim>\<open>parentNode\<close> is
  \<^verbatim>\<open>null\<close> and \<^verbatim>\<open>indexChildNodes\<close> raises when it reads \<^verbatim>\<open>node.childNodes\<close>.
\<close>

function nodeToParts ::
  "node \<Rightarrow> (ref \<Rightarrow> nat) option \<Rightarrow> ref \<Rightarrow> number option \<Rightarrow> error + TPart list" where
  "nodeToParts doc flt node off =
    (case parentNode doc node of
       None \<Rightarrow> Inl TypeError
     | Some par \<Rightarrow>
         (case indexChildNodes flt par of
            Inl e \<Rightarrow> Inl e
          | Inr indexed \<Rightarrow>
              (if notDocumentElement doc par then
                 (case nodeToParts doc flt par None of
                    Inl e \<Rightarrow> Inl e
                  | Inr ps \<Rightarrow>
                      Inr (filter (\<lambda>x. index x \<noteq> Num (- 1)) (ps @ [partOf indexed node off])))
               else Inr (filter (\<lambda>x. index x \<noteq> Num (- 1)) [partOf indexed node off]))))"
  by pat_completeness auto
termination
  by (relation "measure (\<lambda>(doc, flt, node, off). length (fst node))")
     (auto simp: parentNode_def split: if_splits)

declare nodeToParts.simps [simp del]



text \<open>
  The nodes that \<open>nodeToParts\<close> makes a Part for: the node and its ancestors below the
  document element, from the outermost one to the node.
\<close>

function lineage :: "node \<Rightarrow> ref \<Rightarrow> ref list" where
  "lineage doc node =
    (case parentNode doc node of
       None \<Rightarrow> []
     | Some par \<Rightarrow> (if notDocumentElement doc par then lineage doc par else []) @ [node])"
  by pat_completeness auto
termination
  by (relation "measure (\<lambda>(doc, node). length (fst node))")
     (auto simp: parentNode_def split: if_splits)

declare lineage.simps [simp del]

text \<open>
  The Part that \<open>nodeToParts\<close> makes for one node of the lineage: \<open>partOf\<close> over the
  indexed children of the node's parent.
\<close>

definition slotsOf :: "node \<Rightarrow> (ref \<Rightarrow> nat) option \<Rightarrow> ref \<Rightarrow> slot list" where
  "slotsOf doc flt node =
    (case parentNode doc node of
       None \<Rightarrow> []
     | Some par \<Rightarrow> (case indexChildNodes flt par of Inl e \<Rightarrow> [] | Inr indexed \<Rightarrow> indexed))"

definition partFor :: "node \<Rightarrow> (ref \<Rightarrow> nat) option \<Rightarrow> number option \<Rightarrow> ref \<Rightarrow> TPart" where
  "partFor doc flt off node = partOf (slotsOf doc flt node) node off"

section \<open>Decimal numbers\<close>

lemma digitVal_digitChar: "d < 10 \<Longrightarrow> digitVal (digitChar d) = d"
  by (simp add: digitVal_def digitChar_def)

lemma isDigit_digitChar: "d < 10 \<Longrightarrow> isDigit (digitChar d)"
  by (simp add: isDigit_def digitChar_def)

lemma showNat_digits: "list_all isDigit (showNat n)"
proof (induction n rule: showNat.induct)
  case (1 n)
  show ?case
  proof (cases "n < 10")
    case True
    then show ?thesis by (subst showNat.simps) (simp add: isDigit_digitChar)
  next
    case False
    with 1 show ?thesis by (subst showNat.simps) (simp add: isDigit_digitChar)
  qed
qed

lemma showNat_nonempty: "showNat n \<noteq> []"
  by (subst showNat.simps) simp

lemma readNat_snoc: "readNat (ds @ [c]) = 10 * readNat ds + digitVal c"
  by (simp add: readNat_def)

lemma readNat_showNat: "readNat (showNat n) = n"
proof (induction n rule: showNat.induct)
  case (1 n)
  show ?case
  proof (cases "n < 10")
    case True
    then show ?thesis by (subst showNat.simps) (simp add: readNat_def digitVal_digitChar)
  next
    case False
    with 1 show ?thesis
      by (subst showNat.simps) (simp add: readNat_snoc digitVal_digitChar)
  qed
qed

lemma takeWhile_all: "list_all P xs \<Longrightarrow> takeWhile P xs = xs"
  by (induction xs) auto

lemma parseInt_showNat: "parseInt (showNat n) = Num (int n)"
  by (simp add: parseInt_def takeWhile_all showNat_digits showNat_nonempty readNat_showNat)

lemma plain_Num: "plain (Num i) \<Longrightarrow> \<exists>n. i = int n"
  by (auto simp: plain_def intro: exI[of _ "nat i"])

lemma takeWhile_digits_dot: "takeWhile isDigit (showNat i @ CHR ''.'' # f) = showNat i"
proof -
  have "\<not> isDigit (CHR ''.'')" by (simp add: isDigit_def)
  then show ?thesis
    using showNat_digits[of i] by (simp add: takeWhile_append2 list_all_iff)
qed

lemma dropWhile_digits_dot: "dropWhile isDigit (showNat i @ CHR ''.'' # f) = CHR ''.'' # f"
proof -
  have "\<not> isDigit (CHR ''.'')" by (simp add: isDigit_def)
  then show ?thesis
    using showNat_digits[of i] by (simp add: dropWhile_append2 list_all_iff)
qed

lemma stripZeros_id: "f \<noteq> [] \<Longrightarrow> last f \<noteq> CHR ''0'' \<Longrightarrow> stripZeros f = f"
proof -
  assume f: "f \<noteq> []" "last f \<noteq> CHR ''0''"
  then have "hd (rev f) \<noteq> CHR ''0''" by (simp add: hd_rev)
  then have "dropWhile (\<lambda>c. c = CHR ''0'') (rev f) = rev f"
    using f(1) by (simp add: dropWhile_eq_self_iff)
  then show ?thesis by (simp add: stripZeros_def)
qed

lemma parseFloat_plain:
  assumes "plain x"
  shows "parseFloat (numToString x) = x"
proof (cases x)
  case NaN
  with assms show ?thesis by (simp add: plain_def)
next
  case (Num i)
  with assms obtain n where n: "i = int n" using plain_Num by blast
  have d: "dropWhile isDigit (showNat n) = []"
    using showNat_digits[of n] by (simp add: list_all_iff)
  show ?thesis
    using Num n
    by (simp add: parseFloat_def numToString_def takeWhile_all showNat_digits showNat_nonempty
        readNat_showNat stripZeros_def d)
next
  case (Dec i f)
  with assms have f: "f \<noteq> []" "list_all isDigit f" "last f \<noteq> CHR ''0''"
    by (simp_all add: plain_def)
  show ?thesis
    using Dec f
    by (simp add: parseFloat_def numToString_def takeWhile_digits_dot dropWhile_digits_dot
        takeWhile_all stripZeros_id showNat_nonempty readNat_showNat)
qed

lemma plain_chars:
  assumes "plain x"
  shows "list_all (\<lambda>c. isDigit c \<or> c = CHR ''.'') (numToString x)"
proof (cases x)
  case NaN
  with assms show ?thesis by (simp add: plain_def)
next
  case (Num i)
  with assms obtain n where n: "i = int n" using plain_Num by blast
  show ?thesis using Num n showNat_digits[of n] by (simp add: numToString_def list_all_iff)
next
  case (Dec i f)
  with assms have f: "list_all isDigit f" by (simp add: plain_def)
  show ?thesis using Dec f showNat_digits[of i] by (auto simp: numToString_def list_all_iff)
qed

lemma plain_nonempty: "plain x \<Longrightarrow> numToString x \<noteq> []"
  by (cases x) (simp_all add: plain_def numToString_def showNat_nonempty)

lemma isDigit_not_special:
  "isDigit c \<Longrightarrow> c \<notin> set ''^/:~@[!,;=].]()''"
  by (auto simp: isDigit_def)

lemma chars_append: "chars (xs @ ys) = chars xs @ chars ys"
  by (simp add: chars_def)

lemma chars_Cons: "chars (c # cs) = [c] # chars cs"
  by (simp add: chars_def)

lemma chars_Nil: "chars [] = []"
  by (simp add: chars_def)

lemma step_digit:
  assumes "st = ''/'' \<or> st = '':''" "isDigit c"
  shows "tokenizer_step (pend T st v) [c] = pend T st (v @ [c])"
  using assms isDigit_not_special[of c]
  by (auto simp: tokenizer_step_def pend_def cat_def isNumber_def)

lemma run_digits:
  assumes "st = ''/'' \<or> st = '':''"
  shows "list_all isDigit ds \<Longrightarrow> run (pend T st v) (chars ds) = pend T st (v @ ds)"
proof (induction ds arbitrary: v)
  case Nil
  show ?case by (simp add: chars_Nil)
next
  case (Cons c ds)
  then show ?case using assms by (simp add: chars_Cons step_digit)
qed

lemma step_float:
  assumes "st = ''~'' \<or> st = ''@''" "isDigit c \<or> c = CHR ''.''"
  shows "tokenizer_step (pend T st v) [c] = pend T st (v @ [c])"
proof -
  have c: "c \<noteq> CHR ''^''" "c \<noteq> CHR '':''" using assms(2) by (auto simp: isDigit_def)
  have n: "isNumber [c] \<or> [c] = ''.''" using assms(2) by (auto simp: isNumber_def)
  from assms(1) c n show ?thesis
    by (elim disjE; simp add: tokenizer_step_def pend_def cat_def)
qed

lemma run_float:
  assumes "st = ''~'' \<or> st = ''@''"
  shows "list_all (\<lambda>c. isDigit c \<or> c = CHR ''.'') ds \<Longrightarrow>
    run (pend T st v) (chars ds) = pend T st (v @ ds)"
proof (induction ds arbitrary: v)
  case Nil
  show ?case by (simp add: chars_Nil)
next
  case (Cons c ds)
  then show ?case using assms step_float[OF assms, of c T v] by (simp add: chars_Cons)
qed

lemma step_spatial_colon:
  "tokenizer_step (pend T ''@'' v) '':'' = pend (T @ [(''@'', Number (parseFloat v))]) ''@'' []"
  by (simp add: tokenizer_step_def pend_def push_def)

section \<open>Runs of the tokenizer\<close>

lemma boundary_cases:
  assumes "boundary (Some (st, v))"
  shows "st = ''/'' \<or> st = '':'' \<or> st = ''~'' \<or> st = ''@'' \<or> (st = ''!'' \<and> v = [])"
  using assms by (simp add: boundary_def)

lemma step_open:
  assumes "boundary k"
    "c = CHR ''/'' \<or> c = CHR '':'' \<or> c = CHR ''['' \<or> c = CHR ''!'' \<or> c = CHR ''~'' \<or> c = CHR ''@''"
    "c = CHR '':'' \<longrightarrow> \<not> spatialState k"
  shows "tokenizer_step (mk T k) [c] = pend (fl T k) [c] []"
proof (cases k)
  case None
  with assms(2) show ?thesis
    by (auto simp: tokenizer_step_def mk_def fl_def idle_def pend_def enter_def)
next
  case (Some a)
  obtain st v where a: "a = (st, v)" by (cases a)
  with Some assms(1) have st: "st = ''/'' \<or> st = '':'' \<or> st = ''~'' \<or> st = ''@'' \<or> (st = ''!'' \<and> v = [])"
    using boundary_cases by simp
  have nd: "\<not> isNumber [c]" "[c] \<noteq> ''.''" "[c] \<noteq> ''^''"
    using assms(2) by (auto simp: isNumber_def isDigit_def)
  have nc: "st = ''@'' \<Longrightarrow> [c] \<noteq> '':''"
    using assms(3) Some a by (simp add: spatialState_def)
  have en: "enter [c] s = s\<lparr>state := Some [c]\<rparr>" for s
    using assms(2) by (auto simp: enter_def)
  from st show ?thesis
  proof (elim disjE conjE)
    assume "st = ''/''"
    then show ?thesis unfolding Some a using nd
      by (simp add: tokenizer_step_def mk_def fl_def pend_def push_def en)
  next
    assume "st = '':''"
    then show ?thesis unfolding Some a using nd
      by (simp add: tokenizer_step_def mk_def fl_def pend_def push_def en)
  next
    assume "st = ''~''"
    then show ?thesis unfolding Some a using nd
      by (simp add: tokenizer_step_def mk_def fl_def pend_def push_def en)
  next
    assume s: "st = ''@''"
    then show ?thesis unfolding Some a using nd nc[OF s]
      by (simp add: tokenizer_step_def mk_def fl_def pend_def push_def en)
  next
    assume "st = ''!''" "v = []"
    then show ?thesis unfolding Some a using nd
      by (simp add: tokenizer_step_def mk_def fl_def pend_def push_def en)
  qed
qed

lemma step_end:
  assumes "boundary k"
  shows "tokenizer_step (mk T k) [] = idle (fl T k)"
proof (cases k)
  case None
  show ?thesis unfolding None
    by (simp add: tokenizer_step_def mk_def fl_def idle_def enter_def)
next
  case (Some a)
  obtain st v where a: "a = (st, v)" by (cases a)
  with Some assms(1) have st: "st = ''/'' \<or> st = '':'' \<or> st = ''~'' \<or> st = ''@'' \<or> (st = ''!'' \<and> v = [])"
    using boundary_cases by simp
  from st show ?thesis unfolding Some a
    by (elim disjE conjE;
        simp add: tokenizer_step_def mk_def fl_def pend_def idle_def push_def enter_def isNumber_def)
qed

lemma step_other:
  assumes "boundary k" "c \<notin> set ''^/:~@[!,.'' " "\<not> isDigit c"
  shows "tokenizer_step (mk T k) [c] = idle (fl T k)"
proof (cases k)
  case None
  from assms(2) show ?thesis unfolding None
    by (simp add: tokenizer_step_def mk_def fl_def idle_def enter_def)
next
  case (Some a)
  obtain st v where a: "a = (st, v)" by (cases a)
  with Some assms(1) have st: "st = ''/'' \<or> st = '':'' \<or> st = ''~'' \<or> st = ''@'' \<or> (st = ''!'' \<and> v = [])"
    using boundary_cases by simp
  from st assms(2,3) show ?thesis unfolding Some a
    by (elim disjE conjE;
        simp add: tokenizer_step_def mk_def fl_def pend_def idle_def push_def enter_def isNumber_def)
qed

lemma step_escape:
  "tokenizer_step (pend T st v) ''^'' = (pend T st v)\<lparr>escape := True\<rparr>"
  by (simp add: tokenizer_step_def pend_def)

lemma step_escaped:
  "tokenizer_step ((pend T ''['' v)\<lparr>escape := True\<rparr>) [c] = pend T ''['' (v @ [c])"
  by (simp add: tokenizer_step_def pend_def cat_def)

lemma step_plain:
  assumes "c \<notin> set ''^[](),;=''"
  shows "tokenizer_step (pend T ''['' v) [c] = pend T ''['' (v @ [c])"
  using assms by (simp add: tokenizer_step_def pend_def cat_def)

lemma run_escapeCFI:
  "run (pend T ''['' v) (chars (escapeCFI s)) = pend T ''['' (v @ s)"
proof (induction s arbitrary: v)
  case Nil
  show ?case by (simp add: escapeCFI_def chars_Nil)
next
  case (Cons c s)
  have e: "escapeCFI (c # s) = (if c \<in> set ''^[](),;='' then [CHR ''^'', c] else [c]) @ escapeCFI s"
    by (simp add: escapeCFI_def)
  show ?case
  proof (cases "c \<in> set ''^[](),;=''")
    case True
    then have "escapeCFI (c # s) = CHR ''^'' # c # escapeCFI s" using e by simp
    then show ?thesis
      using Cons.IH[of "v @ [c]"] by (simp add: chars_Cons step_escape step_escaped)
  next
    case False
    then have "escapeCFI (c # s) = c # escapeCFI s" using e by simp
    then show ?thesis
      using Cons.IH[of "v @ [c]"] False by (simp add: chars_Cons step_plain)
  qed
qed

lemma join_single: "join sep [x] = x"
  by (simp add: join_def)

lemma foldl_join: "foldl (\<lambda>acc x. acc @ sep @ x) (a @ b) ys = a @ foldl (\<lambda>acc x. acc @ sep @ x) b ys"
  by (induction ys arbitrary: b) simp_all

lemma join_Cons2: "join sep (x # y # ys) = x @ sep @ join sep (y # ys)"
  using foldl_join[of sep x "sep @ y" ys] foldl_join[of sep sep y ys] by (simp add: join_def)

lemma step_comma:
  "tokenizer_step (pend T ''['' v) '','' = pend (T @ [(''['', Str v)]) ''['' []"
  by (simp add: tokenizer_step_def pend_def push_def)

lemma step_close:
  "tokenizer_step (pend T ''['' v) '']'' = idle (T @ [(''['', Str v)])"
  by (simp add: tokenizer_step_def pend_def push_def idle_def)

lemma run_texts:
  "ts \<noteq> [] \<Longrightarrow> run (pend T ''['' []) (chars (join '','' (map escapeCFI ts)))
     = pend (T @ textToks (butlast ts)) ''['' (last ts)"
proof (induction ts arbitrary: T)
  case Nil
  then show ?case by simp
next
  case (Cons t ts)
  show ?case
  proof (cases ts)
    case Nil
    then show ?thesis by (simp add: join_single run_escapeCFI textToks_def)
  next
    case (Cons u us)
    have "run (pend T ''['' []) (chars (join '','' (map escapeCFI (t # ts))))
        = run (pend (T @ [(''['', Str t)]) ''['' []) (chars (join '','' (map escapeCFI ts)))"
      unfolding Cons by (simp add: join_Cons2 chars_append chars_Cons run_escapeCFI step_comma)
    also have "\<dots> = pend ((T @ [(''['', Str t)]) @ textToks (butlast ts)) ''['' (last ts)"
      using Cons.IH[of "T @ [(''['', Str t)]"] Cons by simp
    finally show ?thesis using Cons by (simp add: textToks_def)
  qed
qed

lemma mk_None: "mk T None = idle T" by (simp add: mk_def)
lemma mk_Some: "mk T (Some (st, v)) = pend T st v" by (simp add: mk_def)
lemma fl_None: "fl T None = T" by (simp add: fl_def)
lemma fl_int:
  "st = ''/'' \<or> st = '':'' \<Longrightarrow> fl T (Some (st, v)) = T @ [(st, Number (parseInt v))]"
  by (auto simp: fl_def)

lemma fl_float:
  "st = ''~'' \<or> st = ''@'' \<Longrightarrow> fl T (Some (st, v)) = T @ [(st, Number (parseFloat v))]"
  by (auto simp: fl_def)

lemma readsI:
  assumes "\<And>T k. boundary k \<Longrightarrow> (spatialState k \<Longrightarrow> a) \<Longrightarrow>
    \<exists>T' k'. boundary k' \<and> (spatialState k' \<longrightarrow> b) \<and> run (mk T k) (chars str) = mk T' k'
      \<and> fl T' k' = fl T k @ toks"
  shows "reads a b str toks"
  using assms unfolding reads_def by blast

lemma readsD:
  assumes "reads a b str toks" "boundary k" "spatialState k \<longrightarrow> a"
  obtains T' k' where "boundary k'" "spatialState k' \<longrightarrow> b" "run (mk T k) (chars str) = mk T' k'"
    "fl T' k' = fl T k @ toks"
  using assms unfolding reads_def by blast

lemma reads_Nil: "reads a a [] []"
  by (rule readsI) (auto simp: chars_Nil)

lemma reads_weaken:
  assumes "reads a b str toks" "a' \<longrightarrow> a" "b \<longrightarrow> b'"
  shows "reads a' b' str toks"
proof (rule readsI)
  fix T k assume k: "boundary k" "spatialState k \<Longrightarrow> a'"
  then have "spatialState k \<longrightarrow> a" using assms(2) by blast
  from readsD[OF assms(1) k(1) this, of T] obtain T' k' where
    "boundary k'" "spatialState k' \<longrightarrow> b" "run (mk T k) (chars str) = mk T' k'"
    "fl T' k' = fl T k @ toks" by blast
  then show "\<exists>T' k'. boundary k' \<and> (spatialState k' \<longrightarrow> b') \<and> run (mk T k) (chars str) = mk T' k'
      \<and> fl T' k' = fl T k @ toks"
    using assms(3) by blast
qed

lemma reads_append:
  assumes "reads a b x tx" "reads b c y ty"
  shows "reads a c (x @ y) (tx @ ty)"
proof (rule readsI)
  fix T k assume k: "boundary k" "spatialState k \<Longrightarrow> a"
  then have "spatialState k \<longrightarrow> a" by blast
  from readsD[OF assms(1) k(1) this, of T] obtain T1 k1 where
    1: "boundary k1" "spatialState k1 \<longrightarrow> b" "run (mk T k) (chars x) = mk T1 k1"
       "fl T1 k1 = fl T k @ tx" by blast
  from readsD[OF assms(2) 1(1) 1(2), of T1] obtain T2 k2 where
    2: "boundary k2" "spatialState k2 \<longrightarrow> c" "run (mk T1 k1) (chars y) = mk T2 k2"
       "fl T2 k2 = fl T1 k1 @ ty" by blast
  have "run (mk T k) (chars (x @ y)) = mk T2 k2" using 1(3) 2(3) by (simp add: chars_append)
  moreover have "fl T2 k2 = fl T k @ tx @ ty" using 1(4) 2(4) by simp
  ultimately show "\<exists>T' k'. boundary k' \<and> (spatialState k' \<longrightarrow> c) \<and> run (mk T k) (chars (x @ y)) = mk T' k'
      \<and> fl T' k' = fl T k @ tx @ ty"
    using 2(1,2) by blast
qed

lemma reads_number:
  assumes "c = CHR ''/'' \<or> c = CHR '':''"
  shows "reads (c = CHR ''/'') False (c # showNat n) [([c], Number (Num (int n)))]"
proof (rule readsI)
  fix T k assume k: "boundary k" "spatialState k \<Longrightarrow> c = CHR ''/''"
  have o: "c = CHR '':'' \<longrightarrow> \<not> spatialState k" using k(2) by auto
  have "run (mk T k) (chars (c # showNat n)) = run (pend (fl T k) [c] []) (chars (showNat n))"
    using assms step_open[OF k(1) _ o, of T] by (auto simp: chars_Cons)
  also have "\<dots> = pend (fl T k) [c] (showNat n)"
    using assms run_digits[of "[c]" "showNat n" "fl T k" "[]"] showNat_digits by auto
  finally have "run (mk T k) (chars (c # showNat n)) = mk (fl T k) (Some ([c], showNat n))"
    by (simp add: mk_Some)
  moreover have "boundary (Some ([c], showNat n))" using assms by (auto simp: boundary_def)
  moreover have "\<not> spatialState (Some ([c], showNat n))" using assms by (auto simp: spatialState_def)
  moreover have "fl (fl T k) (Some ([c], showNat n)) = fl T k @ [([c], Number (Num (int n)))]"
    using assms by (auto simp: fl_int parseInt_showNat)
  ultimately show "\<exists>T' k'. boundary k' \<and> (spatialState k' \<longrightarrow> False)
      \<and> run (mk T k) (chars (c # showNat n)) = mk T' k'
      \<and> fl T' k' = fl T k @ [([c], Number (Num (int n)))]"
    by blast
qed

lemma reads_temporal:
  assumes "plain t"
  shows "reads True False (''~'' @ numToString t) [(''~'', Number t)]"
proof (rule readsI)
  fix T k assume k: "boundary k"
  have "run (mk T k) (chars (''~'' @ numToString t)) = run (pend (fl T k) ''~'' []) (chars (numToString t))"
    using step_open[OF k, of "CHR ''~''" T] by (simp add: chars_Cons)
  also have "\<dots> = pend (fl T k) ''~'' (numToString t)"
    using run_float[of "''~''" "numToString t" "fl T k" "[]"] plain_chars[OF assms] by simp
  finally have "run (mk T k) (chars (''~'' @ numToString t)) = mk (fl T k) (Some (''~'', numToString t))"
    by (simp add: mk_Some)
  moreover have "boundary (Some (''~'', numToString t))" by (simp add: boundary_def)
  moreover have "\<not> spatialState (Some (''~'', numToString t))" by (simp add: spatialState_def)
  moreover have "fl (fl T k) (Some (''~'', numToString t)) = fl T k @ [(''~'', Number t)]"
    by (simp add: fl_float parseFloat_plain[OF assms])
  ultimately show "\<exists>T' k'. boundary k' \<and> (spatialState k' \<longrightarrow> False)
      \<and> run (mk T k) (chars (''~'' @ numToString t)) = mk T' k'
      \<and> fl T' k' = fl T k @ [(''~'', Number t)]"
    by blast
qed

lemma run_spatial:
  "sp \<noteq> [] \<Longrightarrow> list_all plain sp \<Longrightarrow>
    run (pend T ''@'' []) (chars (join '':'' (map numToString sp)))
     = pend (T @ spatialToks (butlast sp)) ''@'' (numToString (last sp))"
proof (induction sp arbitrary: T)
  case Nil
  then show ?case by simp
next
  case (Cons x xs)
  have x: "plain x" using Cons.prems(2) by simp
  have rx: "run (pend T ''@'' []) (chars (numToString x)) = pend T ''@'' (numToString x)"
    using run_float[of "''@''" "numToString x" T "[]"] plain_chars[OF x] by simp
  show ?case
  proof (cases xs)
    case Nil
    then show ?thesis using rx by (simp add: join_single spatialToks_def)
  next
    case (Cons y ys)
    have "run (pend T ''@'' []) (chars (join '':'' (map numToString (x # xs))))
        = run (pend (T @ [(''@'', Number x)]) ''@'' []) (chars (join '':'' (map numToString xs)))"
      unfolding Cons
      using rx by (simp add: join_Cons2 chars_append chars_Cons step_spatial_colon parseFloat_plain[OF x])
    also have "\<dots> = pend ((T @ [(''@'', Number x)]) @ spatialToks (butlast xs)) ''@'' (numToString (last xs))"
      using Cons.IH[of "T @ [(''@'', Number x)]"] Cons Cons.prems(2) by simp
    finally show ?thesis using Cons by (simp add: spatialToks_def)
  qed
qed

lemma reads_spatial:
  assumes "sp \<noteq> []" "list_all plain sp"
  shows "reads True True (''@'' @ join '':'' (map numToString sp)) (spatialToks sp)"
proof (rule readsI)
  fix T k assume k: "boundary k"
  let ?s = "''@'' @ join '':'' (map numToString sp)"
  have l: "plain (last sp)" using assms by (simp add: list_all_iff)
  have "run (mk T k) (chars ?s) = run (pend (fl T k) ''@'' []) (chars (join '':'' (map numToString sp)))"
    using step_open[OF k, of "CHR ''@''" T] by (simp add: chars_Cons)
  also have "\<dots> = pend (fl T k @ spatialToks (butlast sp)) ''@'' (numToString (last sp))"
    using run_spatial[OF assms] .
  finally have "run (mk T k) (chars ?s)
      = mk (fl T k @ spatialToks (butlast sp)) (Some (''@'', numToString (last sp)))"
    by (simp add: mk_Some)
  moreover have "boundary (Some (''@'', numToString (last sp)))" by (simp add: boundary_def)
  moreover have "fl (fl T k @ spatialToks (butlast sp)) (Some (''@'', numToString (last sp)))
      = fl T k @ spatialToks sp"
  proof -
    have "spatialToks (butlast sp @ [last sp]) = spatialToks sp" using assms(1) by simp
    then have "spatialToks (butlast sp) @ [(''@'', Number (last sp))] = spatialToks sp"
      unfolding spatialToks_def by (simp del: append_butlast_last_id)
    then show ?thesis by (simp add: fl_float parseFloat_plain[OF l])
  qed
  ultimately show "\<exists>T' k'. boundary k' \<and> (spatialState k' \<longrightarrow> True)
      \<and> run (mk T k) (chars ?s) = mk T' k' \<and> fl T' k' = fl T k @ spatialToks sp"
    by blast
qed

lemma run_param:
  assumes "okSide sd"
  shows "run (pend T ''['' v) (chars (param sd @ '']'')) = idle (T @ [(''['', Str v)] @ sideToks sd)"
proof -
  from assms consider "sd = None" | "sd = Some ''before''" | "sd = Some ''after''"
    unfolding okSide_def by blast
  then show ?thesis
  proof cases
    case 1
    then show ?thesis
      by (simp add: param_def truthyStr_def sideToks_def chars_def step_close)
  next
    case 2
    then show ?thesis
      by (simp add: param_def truthyStr_def sideToks_def chars_def tokenizer_step_def pend_def
          push_def cat_def idle_def startsWith_def)
  next
    case 3
    then show ?thesis
      by (simp add: param_def truthyStr_def sideToks_def chars_def tokenizer_step_def pend_def
          push_def cat_def idle_def startsWith_def)
  qed
qed

lemma reads_bracket:
  assumes "ts \<noteq> []" "okSide sd"
  shows "reads True False (''['' @ join '','' (map escapeCFI ts) @ param sd @ '']'') (textToks ts @ sideToks sd)"
proof (rule readsI)
  fix T k assume k: "boundary k"
  let ?s = "''['' @ join '','' (map escapeCFI ts) @ param sd @ '']''"
  have "run (mk T k) (chars ?s)
      = run (run (pend (fl T k) ''['' []) (chars (join '','' (map escapeCFI ts)))) (chars (param sd @ '']''))"
    using step_open[OF k, of "CHR ''[''" T] by (simp add: chars_Cons chars_append)
  also have "\<dots> = run (pend (fl T k @ textToks (butlast ts)) ''['' (last ts)) (chars (param sd @ '']''))"
    using assms(1) by (simp add: run_texts)
  also have "\<dots> = idle (fl T k @ textToks (butlast ts) @ [(''['', Str (last ts))] @ sideToks sd)"
    using assms(2) by (simp add: run_param)
  finally have r: "run (mk T k) (chars ?s)
      = idle (fl T k @ textToks (butlast ts) @ [(''['', Str (last ts))] @ sideToks sd)" .
  have "textToks (butlast ts @ [last ts]) = textToks ts"
    using assms(1) by simp
  then have "textToks (butlast ts) @ [(''['', Str (last ts))] @ sideToks sd = textToks ts @ sideToks sd"
    unfolding textToks_def by (simp del: append_butlast_last_id)
  with r have "run (mk T k) (chars ?s) = mk (fl T k @ textToks ts @ sideToks sd) None"
    by (simp only: mk_None)
  moreover have "boundary None" by (simp add: boundary_def)
  moreover have "\<not> spatialState None" by (simp add: spatialState_def)
  ultimately show "\<exists>T' k'. boundary k' \<and> (spatialState k' \<longrightarrow> False) \<and> run (mk T k) (chars ?s) = mk T' k'
      \<and> fl T' k' = fl T k @ textToks ts @ sideToks sd"
    by (metis fl_None)
qed

lemma natural_Num: "natural x \<Longrightarrow> \<exists>n. x = Num (int n)"
  unfolding natural_def by (cases x) (auto intro: exI[of _ "nat _"])

lemma numToString_nat: "numToString (Num (int n)) = showNat n"
  by (simp add: numToString_def)

lemma partToString_segments:
  assumes "canonicalPart p" "index p = Num (int n)"
  shows "partToString p = (''/'' @ showNat n)
     @ (if truthyStr (id' p) then ''['' @ escapeCFI (the (id' p)) @ param (side p) @ '']'' else [])
     @ (if offset p \<noteq> None \<and> mod2Truthy (index p) then '':'' @ numToString (the (offset p)) else [])
     @ (case temporal p of None \<Rightarrow> [] | Some t \<Rightarrow> ''~'' @ numToString t)
     @ (case spatial p of None \<Rightarrow> [] | Some sp \<Rightarrow> ''@'' @ join '':'' (map numToString sp))
     @ (if text' p \<noteq> None \<or> (\<not> truthyStr (id' p) \<and> truthyStr (side p))
           then ''['' @ (case text' p of None \<Rightarrow> [] | Some ts \<Rightarrow> join '','' (map escapeCFI ts))
                @ param (side p) @ '']''
           else [])"
proof -
  have "(case temporal p of None \<Rightarrow> [] | Some t \<Rightarrow> if truthyNum t then ''~'' @ numToString t else [])
      = (case temporal p of None \<Rightarrow> [] | Some t \<Rightarrow> ''~'' @ numToString t)"
    using assms(1) by (cases "temporal p") (simp_all add: canonicalPart_def)
  then show ?thesis
    using assms(2) by (simp add: partToString_def numToString_nat Let_def)
qed

lemma reads_part:
  assumes "canonicalPart p"
  shows "reads True True (partToString p) (partTokens p)"
proof -
  from assms obtain n where n: "index p = Num (int n)"
    unfolding canonicalPart_def using natural_Num by blast
  let ?ids = "(if truthyStr (id' p) then ''['' @ escapeCFI (the (id' p)) @ param (side p) @ '']'' else [])"
  let ?idt = "(case id' p of None \<Rightarrow> [] | Some s \<Rightarrow> (''['', Str s) # sideToks (side p))"
  let ?ofs = "(if offset p \<noteq> None \<and> mod2Truthy (index p) then '':'' @ numToString (the (offset p)) else [])"
  let ?oft = "(case offset p of None \<Rightarrow> [] | Some m \<Rightarrow> [('':'', Number m)])"
  let ?tms = "(case temporal p of None \<Rightarrow> [] | Some t \<Rightarrow> ''~'' @ numToString t)"
  let ?tmt = "(case temporal p of None \<Rightarrow> [] | Some t \<Rightarrow> [(''~'', Number t)])"
  let ?sps = "(case spatial p of None \<Rightarrow> [] | Some sp \<Rightarrow> ''@'' @ join '':'' (map numToString sp))"
  let ?spt = "(case spatial p of None \<Rightarrow> [] | Some sp \<Rightarrow> spatialToks sp)"
  let ?txs = "(if text' p \<noteq> None \<or> (\<not> truthyStr (id' p) \<and> truthyStr (side p))
           then ''['' @ (case text' p of None \<Rightarrow> [] | Some ts \<Rightarrow> join '','' (map escapeCFI ts))
                @ param (side p) @ '']''
           else [])"
  let ?txt = "(case text' p of None \<Rightarrow> [] | Some ts \<Rightarrow> textToks ts @ sideToks (side p))"
  have side: "okSide (side p)" using assms by (simp add: canonicalPart_def)
  have A: "reads True False (''/'' @ showNat n) [(''/'', Number (index p))]"
    using reads_number[of "CHR ''/''" n] n by simp
  have B: "reads False False ?ids ?idt"
  proof (cases "id' p")
    case None
    then show ?thesis by (simp add: truthyStr_def reads_Nil)
  next
    case (Some s)
    with assms have s: "s \<noteq> []" by (simp add: canonicalPart_def)
    have "reads True False (''['' @ join '','' (map escapeCFI [s]) @ param (side p) @ '']'')
            (textToks [s] @ sideToks (side p))"
      using side by (intro reads_bracket) simp_all
    then have "reads False False (''['' @ join '','' (map escapeCFI [s]) @ param (side p) @ '']'')
            (textToks [s] @ sideToks (side p))"
      by (rule reads_weaken) simp_all
    with Some s show ?thesis by (simp add: truthyStr_def join_single textToks_def)
  qed
  have C: "reads False False ?ofs ?oft"
  proof (cases "offset p")
    case None
    then show ?thesis by (simp add: reads_Nil)
  next
    case (Some m)
    with assms have "natural m" "mod2Truthy (index p)" by (simp_all add: canonicalPart_def)
    then obtain k where "m = Num (int k)" using natural_Num by blast
    with Some \<open>mod2Truthy (index p)\<close> show ?thesis
      using reads_number[of "CHR '':''" k] by (simp add: numToString_nat)
  qed
  have E: "reads False False ?tms ?tmt"
  proof (cases "temporal p")
    case None
    then show ?thesis by (simp add: reads_Nil)
  next
    case (Some t)
    with assms have "plain t" by (simp add: canonicalPart_def)
    then have "reads True False (''~'' @ numToString t) [(''~'', Number t)]" by (rule reads_temporal)
    then have "reads False False (''~'' @ numToString t) [(''~'', Number t)]"
      by (rule reads_weaken) simp_all
    with Some show ?thesis by simp
  qed
  have F: "reads False True ?sps ?spt"
  proof (cases "spatial p")
    case None
    have "reads False False [] []" by (rule reads_Nil)
    then have "reads False True [] []" by (rule reads_weaken) simp_all
    with None show ?thesis by simp
  next
    case (Some sp)
    with assms have "sp \<noteq> []" "list_all plain sp" by (simp_all add: canonicalPart_def)
    then have "reads True True (''@'' @ join '':'' (map numToString sp)) (spatialToks sp)"
      by (rule reads_spatial)
    then have "reads False True (''@'' @ join '':'' (map numToString sp)) (spatialToks sp)"
      by (rule reads_weaken) simp_all
    with Some show ?thesis by simp
  qed
  have D: "reads True True ?txs ?txt"
  proof (cases "text' p")
    case None
    with assms have "side p = None \<or> id' p \<noteq> None" by (simp add: canonicalPart_def)
    moreover have "id' p \<noteq> None \<Longrightarrow> truthyStr (id' p)"
      using assms by (auto simp: canonicalPart_def truthyStr_def)
    ultimately show ?thesis using None by (auto simp: truthyStr_def reads_Nil)
  next
    case (Some ts)
    with assms have "ts \<noteq> []" by (simp add: canonicalPart_def)
    then have "reads True False (''['' @ join '','' (map escapeCFI ts) @ param (side p) @ '']'')
            (textToks ts @ sideToks (side p))"
      using side by (intro reads_bracket)
    then have "reads True True (''['' @ join '','' (map escapeCFI ts) @ param (side p) @ '']'')
            (textToks ts @ sideToks (side p))"
      by (rule reads_weaken) simp_all
    with Some show ?thesis by simp
  qed
  have str: "partToString p = (''/'' @ showNat n) @ ?ids @ ?ofs @ ?tms @ ?sps @ ?txs"
    using partToString_segments[OF assms n] .
  have toks: "partTokens p = [(''/'', Number (index p))] @ ?idt @ ?oft @ ?tmt @ ?spt @ ?txt"
    by (simp add: partTokens_def)
  show ?thesis unfolding str toks
    by (rule reads_append[OF A reads_append[OF B reads_append[OF C reads_append[OF E
          reads_append[OF F D]]]]])
qed

lemma reads_path:
  "list_all canonicalPart ps \<Longrightarrow> reads True True (concat (map partToString ps)) (concat (map partTokens ps))"
proof (induction ps)
  case Nil
  show ?case by (simp add: reads_Nil)
next
  case (Cons p ps)
  then have "reads True True (partToString p @ concat (map partToString ps))
      (partTokens p @ concat (map partTokens ps))"
    by (intro reads_append[of True True _ _ True]) (simp_all add: reads_part)
  then show ?case by simp
qed

lemma tokenizer_reads:
  assumes "reads a b str toks" "trim str = str"
  shows "tokenizer str = toks"
proof -
  have "boundary None" "spatialState None \<longrightarrow> a" by (simp_all add: boundary_def spatialState_def)
  from readsD[OF assms(1) this, of "[]"] obtain T' k' where
    r: "boundary k'" "run (mk [] None) (chars str) = mk T' k'" "fl T' k' = fl [] None @ toks"
    by blast
  have "tokenizer_init = mk [] None" by (simp add: tokenizer_init_def mk_None idle_def)
  then have "tokenizer str = tokens (tokenizer_step (mk T' k') [])"
    using r(2) assms(2) by (simp add: tokenizer_def)
  also have "\<dots> = toks" using r(1,3) by (simp add: step_end idle_def fl_None)
  finally show ?thesis .
qed

section \<open>Runs of the step parser\<close>

lemma onLast_snoc: "onLast f (ps @ [q]) = Inr (ps @ [f q])"
  by (simp add: onLast_def)

lemma parser_step_slash:
  "parser_loop ps st ((''/'', Number n) # R) = parser_loop (ps @ [newPart n]) ''/'' R"
  by (simp add: asNumber_def)

lemma parser_step_offset:
  "parser_loop (ps @ [q]) st (('':'', Number m) # R) = parser_loop (ps @ [q\<lparr>offset := Some m\<rparr>]) '':'' R"
  by (simp add: asNumber_def onLast_snoc)

lemma parser_step_temporal:
  "parser_loop (ps @ [q]) st ((''~'', Number t) # R) = parser_loop (ps @ [q\<lparr>temporal := Some t\<rparr>]) ''~'' R"
  by (simp add: asNumber_def onLast_snoc)

lemma parser_step_spatial:
  "parser_loop (ps @ [q]) st ((''@'', Number x) # R)
     = parser_loop (ps @ [q\<lparr>spatial := Some (orEmpty (spatial q) @ [x])\<rparr>]) ''@'' R"
  by (simp add: asNumber_def onLast_snoc)

lemma parser_spatial:
  "sp \<noteq> [] \<Longrightarrow> parser_loop (ps @ [q]) st (spatialToks sp @ R)
     = parser_loop (ps @ [q\<lparr>spatial := Some (orEmpty (spatial q) @ sp)\<rparr>]) ''@'' R"
proof (induction sp arbitrary: q st)
  case Nil
  then show ?case by simp
next
  case (Cons x xs)
  show ?case
  proof (cases "xs = []")
    case True
    then show ?thesis using parser_step_spatial[of ps q st x R] by (simp add: spatialToks_def)
  next
    case False
    have "parser_loop (ps @ [q]) st (spatialToks (x # xs) @ R)
        = parser_loop (ps @ [q\<lparr>spatial := Some (orEmpty (spatial q) @ [x])\<rparr>]) ''@'' (spatialToks xs @ R)"
      using parser_step_spatial[of ps q st x "spatialToks xs @ R"] by (simp add: spatialToks_def)
    also have "\<dots> = parser_loop (ps @ [q\<lparr>spatial := Some (orEmpty (spatial q) @ [x])\<rparr>
                \<lparr>spatial := Some (orEmpty (spatial (q\<lparr>spatial := Some (orEmpty (spatial q) @ [x])\<rparr>)) @ xs)\<rparr>]) ''@'' R"
      using Cons.IH[OF False] by simp
    finally show ?thesis by (simp add: orEmpty_def)
  qed
qed

lemma parser_step_id:
  "s \<noteq> [] \<Longrightarrow> parser_loop (ps @ [q]) ''/'' ((''['', Str s) # R)
     = parser_loop (ps @ [q\<lparr>id' := Some s\<rparr>]) ''['' R"
  by (simp add: asString_def truthy_def onLast_snoc)

lemma parser_step_text:
  "st \<noteq> ''/'' \<or> t = [] \<Longrightarrow> parser_loop (ps @ [q]) st ((''['', Str t) # R)
     = parser_loop (ps @ [q\<lparr>text' := Some (orEmpty (text' q) @ [t])\<rparr>]) st R"
  by (auto simp: asString_def truthy_def onLast_snoc)

lemma parser_side:
  "parser_loop (ps @ [q]) st (sideToks (Some x) @ R)
     = parser_loop (ps @ [q\<lparr>side := Some x\<rparr>]) '';s'' R"
  by (simp add: sideToks_def asString_def onLast_snoc)

lemma sideToks_None: "sideToks None = []"
  by (simp add: sideToks_def)

lemma parser_texts:
  "ts \<noteq> [] \<Longrightarrow> st \<noteq> ''/'' \<or> list_all (\<lambda>t. t = []) ts \<Longrightarrow>
    parser_loop (ps @ [q]) st (textToks ts @ R)
     = parser_loop (ps @ [q\<lparr>text' := Some (orEmpty (text' q) @ ts)\<rparr>]) st R"
proof (induction ts arbitrary: q)
  case Nil
  then show ?case by simp
next
  case (Cons t ts)
  have c: "st \<noteq> ''/'' \<or> t = []" using Cons.prems(2) by auto
  show ?case
  proof (cases "ts = []")
    case True
    then show ?thesis using parser_step_text[OF c] by (simp add: textToks_def)
  next
    case False
    have "parser_loop (ps @ [q]) st (textToks (t # ts) @ R)
        = parser_loop (ps @ [q\<lparr>text' := Some (orEmpty (text' q) @ [t])\<rparr>]) st (textToks ts @ R)"
      using parser_step_text[OF c] by (simp add: textToks_def)
    also have "\<dots> = parser_loop (ps @ [q\<lparr>text' := Some (orEmpty (text' q) @ [t])\<rparr>
                \<lparr>text' := Some (orEmpty (text' (q\<lparr>text' := Some (orEmpty (text' q) @ [t])\<rparr>)) @ ts)\<rparr>]) st R"
      using Cons.IH[OF False] Cons.prems(2) by auto
    finally show ?thesis by (simp add: orEmpty_def)
  qed
qed


declare parser_loop.simps(2) [simp del]

lemma parser_part:
  assumes "canonicalPart p"
  shows "parser_loop ps st (partTokens p @ R)
     = parser_loop (ps @ [p])
        (if text' p \<noteq> None \<and> side p \<noteq> None then '';s''
         else if spatial p \<noteq> None then ''@''
         else if temporal p \<noteq> None then ''~''
         else if offset p \<noteq> None then '':''
         else if id' p \<noteq> None then (if side p \<noteq> None then '';s'' else ''['')
         else ''/'') R"
proof -
  obtain i off tm sp sd idd tx where p: "p = \<lparr>index = i, offset = off, temporal = tm,
      spatial = sp, side = sd, id' = idd, text' = tx\<rparr>"
    by (cases p)
  have idne: "\<And>s. idd = Some s \<Longrightarrow> s \<noteq> []" using assms by (simp add: p canonicalPart_def)
  have spne: "\<And>xs. sp = Some xs \<Longrightarrow> xs \<noteq> []" using assms by (simp add: p canonicalPart_def)
  have txne: "\<And>ts. tx = Some ts \<Longrightarrow> ts \<noteq> []" using assms by (simp add: p canonicalPart_def)
  have txe: "\<And>ts. tx = Some ts \<Longrightarrow> idd = None \<Longrightarrow> off = None \<Longrightarrow> tm = None \<Longrightarrow> sp = None
      \<Longrightarrow> list_all (\<lambda>t. t = []) ts"
    using assms by (simp add: p canonicalPart_def)
  have sdn: "tx = None \<Longrightarrow> idd = None \<Longrightarrow> sd = None" using assms by (simp add: p canonicalPart_def)
  define q0 where "q0 = newPart i"
  define q1 where "q1 = (case idd of None \<Rightarrow> q0
      | Some s \<Rightarrow> (case sd of None \<Rightarrow> q0\<lparr>id' := Some s\<rparr> | Some x \<Rightarrow> q0\<lparr>id' := Some s, side := Some x\<rparr>))"
  define s1 where "s1 = (case idd of None \<Rightarrow> ''/'' | Some s \<Rightarrow> (if sd = None then ''['' else '';s''))"
  define q2 where "q2 = (case off of None \<Rightarrow> q1 | Some m \<Rightarrow> q1\<lparr>offset := Some m\<rparr>)"
  define s2 where "s2 = (case off of None \<Rightarrow> s1 | Some m \<Rightarrow> '':'')"
  define q3 where "q3 = (case tm of None \<Rightarrow> q2 | Some t \<Rightarrow> q2\<lparr>temporal := Some t\<rparr>)"
  define s3 where "s3 = (case tm of None \<Rightarrow> s2 | Some t \<Rightarrow> ''~'')"
  define q4 where "q4 = (case sp of None \<Rightarrow> q3 | Some xs \<Rightarrow> q3\<lparr>spatial := Some xs\<rparr>)"
  define s4 where "s4 = (case sp of None \<Rightarrow> s3 | Some xs \<Rightarrow> ''@'')"
  define s5 where "s5 = (if tx \<noteq> None \<and> sd \<noteq> None then '';s'' else s4)"
  let ?idt = "(case idd of None \<Rightarrow> [] | Some s \<Rightarrow> (''['', Str s) # sideToks sd)"
  let ?oft = "(case off of None \<Rightarrow> [] | Some m \<Rightarrow> [('':'', Number m)])"
  let ?tmt = "(case tm of None \<Rightarrow> [] | Some t \<Rightarrow> [(''~'', Number t)])"
  let ?spt = "(case sp of None \<Rightarrow> [] | Some xs \<Rightarrow> spatialToks xs)"
  let ?txt = "(case tx of None \<Rightarrow> [] | Some ts \<Rightarrow> textToks ts @ sideToks sd)"
  have 0: "parser_loop ps st (partTokens p @ R)
      = parser_loop (ps @ [q0]) ''/'' (?idt @ ?oft @ ?tmt @ ?spt @ ?txt @ R)"
    by (cases idd; cases tx) (simp_all add: p partTokens_def parser_step_slash q0_def)
  have 1: "parser_loop (ps @ [q0]) ''/'' (?idt @ X) = parser_loop (ps @ [q1]) s1 X" for X
  proof (cases idd)
    case None
    then show ?thesis by (simp add: q1_def s1_def)
  next
    case (Some s)
    then show ?thesis using idne[OF Some]
      by (cases sd) (simp_all add: q1_def s1_def parser_step_id parser_side sideToks_None)
  qed
  have 2: "parser_loop (ps @ [q1]) s1 (?oft @ X) = parser_loop (ps @ [q2]) s2 X" for X
    by (cases off) (simp_all add: q2_def s2_def parser_step_offset)
  have 3: "parser_loop (ps @ [q2]) s2 (?tmt @ X) = parser_loop (ps @ [q3]) s3 X" for X
    by (cases tm) (simp_all add: q3_def s3_def parser_step_temporal)
  have sp0: "spatial q3 = None"
    by (cases idd; cases sd; cases off; cases tm)
       (simp_all add: q3_def q2_def q1_def q0_def newPart_def)
  have 4: "parser_loop (ps @ [q3]) s3 (?spt @ X) = parser_loop (ps @ [q4]) s4 X" for X
  proof (cases sp)
    case None
    then show ?thesis by (simp add: q4_def s4_def)
  next
    case (Some xs)
    then show ?thesis using parser_spatial[OF spne[OF Some], of ps q3 s3 X] sp0
      by (simp add: q4_def s4_def orEmpty_def)
  qed
  have q4: "q4 = \<lparr>index = i, offset = off, temporal = tm, spatial = sp,
      side = (if idd = None then None else sd), id' = idd, text' = None\<rparr>"
    by (cases idd; cases sd; cases off; cases tm; cases sp)
       (simp_all add: q4_def q3_def q2_def q1_def q0_def newPart_def)
  have s4: "s4 = ''/'' \<longleftrightarrow> idd = None \<and> off = None \<and> tm = None \<and> sp = None"
    by (cases idd; cases off; cases tm; cases sp) (simp_all add: s4_def s3_def s2_def s1_def)
  have 5: "parser_loop (ps @ [q4]) s4 (?txt @ R) = parser_loop (ps @ [p]) s5 R"
  proof (cases tx)
    case None
    then have "q4 = p" using sdn by (auto simp: q4 p)
    with None show ?thesis by (simp add: s5_def)
  next
    case (Some ts)
    have c: "s4 \<noteq> ''/'' \<or> list_all (\<lambda>t. t = []) ts" using txe[OF Some] s4 by blast
    have a: "parser_loop (ps @ [q4]) s4 (textToks ts @ X)
        = parser_loop (ps @ [q4\<lparr>text' := Some ts\<rparr>]) s4 X" for X
      using parser_texts[OF txne[OF Some] c, of ps q4 X] by (simp add: q4 orEmpty_def)
    show ?thesis
    proof (cases sd)
      case None
      then show ?thesis using Some a[of R] by (simp add: sideToks_None s5_def q4 p)
    next
      case (Some x)
      have "parser_loop (ps @ [q4]) s4 (textToks ts @ sideToks (Some x) @ R)
          = parser_loop (ps @ [q4\<lparr>text' := Some ts\<rparr>\<lparr>side := Some x\<rparr>]) '';s'' R"
        using a[of "sideToks (Some x) @ R"] by (simp only: parser_side)
      then show ?thesis using Some \<open>tx = Some ts\<close> by (simp add: s5_def q4 p)
    qed
  qed
  have s5: "s5 = (if text' p \<noteq> None \<and> side p \<noteq> None then '';s''
         else if spatial p \<noteq> None then ''@''
         else if temporal p \<noteq> None then ''~''
         else if offset p \<noteq> None then '':''
         else if id' p \<noteq> None then (if side p \<noteq> None then '';s'' else ''['')
         else ''/'')"
    by (cases idd; cases sd; cases off; cases tm; cases sp; cases tx)
       (simp_all add: s5_def s4_def s3_def s2_def s1_def p)
  show ?thesis
    unfolding 0 1 2 3 4 5 s5 ..
qed

section \<open>Tokens of a serialized Path, parsed back\<close>

lemma parser_path:
  "list_all canonicalPart ps \<Longrightarrow>
    parser_loop acc st (concat (map partTokens ps)) = Inr (acc @ ps)"
proof (induction ps arbitrary: acc st)
  case Nil
  show ?case by simp
next
  case (Cons p ps)
  then show ?case using parser_part[of p acc st "concat (map partTokens ps)"] by simp
qed

lemma reads_indir: "reads True True ''!'' [(''!'', Undefined)]"
proof (rule readsI)
  fix T k assume k: "boundary k"
  have "run (mk T k) (chars ''!'') = mk (fl T k) (Some (''!'', []))"
    using step_open[OF k, of "CHR ''!''" T] by (simp add: chars_def mk_def)
  moreover have "boundary (Some (''!'', []))" by (simp add: boundary_def)
  moreover have "fl (fl T k) (Some (''!'', [])) = fl T k @ [(''!'', Undefined)]"
    by (simp add: fl_def)
  ultimately show "\<exists>T' k'. boundary k' \<and> (spatialState k' \<longrightarrow> True) \<and> run (mk T k) (chars ''!'') = mk T' k'
      \<and> fl T' k' = fl T k @ [(''!'', Undefined)]"
    by blast
qed

lemma reads_other:
  assumes "c \<notin> set ''^/:~@[!,.''" "\<not> isDigit c"
  shows "reads True True [c] []"
proof (rule readsI)
  fix T k assume k: "boundary k"
  have "run (mk T k) (chars [c]) = mk (fl T k) None"
    using step_other[OF k assms, of T] by (simp add: chars_def mk_def)
  moreover have "boundary None" by (simp add: boundary_def)
  ultimately show "\<exists>T' k'. boundary k' \<and> (spatialState k' \<longrightarrow> True) \<and> run (mk T k) (chars [c]) = mk T' k'
      \<and> fl T' k' = fl T k @ []"
    by (metis append_Nil2 fl_None)
qed

lemma reads_paths:
  "list_all (list_all canonicalPart) P \<Longrightarrow>
    reads True True (pathsToString P) (join [(''!'', Undefined)] (map (\<lambda>path. concat (map partTokens path)) P))"
proof (induction P rule: induct_list012)
  case 1
  show ?case by (simp add: pathsToString_def join_def reads_Nil)
next
  case (2 p)
  then show ?case by (simp add: pathsToString_def join_single pathToString_def reads_path)
next
  case (3 p q qs)
  have a: "reads True True (pathToString p) (concat (map partTokens p))"
    using 3(3) by (simp add: pathToString_def reads_path)
  have b: "reads True True (pathsToString (q # qs)) (join [(''!'', Undefined)] (map (\<lambda>path. concat (map partTokens path)) (q # qs)))"
    using 3 by simp
  show ?case
    using reads_append[OF a reads_append[OF reads_indir b]]
    by (simp add: pathsToString_def join_Cons2)
qed

section \<open>Trimming and the envelope\<close>

lemma neat_Nil: "neat []"
  by (simp add: neat_def)

lemma neat_append:
  assumes "neat a" "neat b"
  shows "neat (a @ b)"
proof (cases "a = []")
  case True
  with assms show ?thesis by simp
next
  case a: False
  show ?thesis
  proof (cases "b = []")
    case True
    with assms show ?thesis by simp
  next
    case False
    with a assms show ?thesis by (simp add: neat_def)
  qed
qed

lemma isDigit_not_space: "isDigit c \<Longrightarrow> \<not> isSpace c"
  by (auto simp: isDigit_def isSpace_def)

lemma neat_marker:
  assumes "c \<in> set ''/:~@[!''" "list_all (\<lambda>c. \<not> isSpace c) s"
  shows "neat (c # s)"
proof (cases "s = []")
  case True
  with assms(1) show ?thesis by (auto simp: neat_def isSpace_def)
next
  case False
  then have "last s \<in> set s" by simp
  then have "\<not> isSpace (last s)" using assms(2) by (simp add: list_all_iff)
  with False assms(1) show ?thesis by (simp add: neat_def)
qed

lemma neat_number:
  assumes "c \<in> set ''/:''"
  shows "neat (c # showNat n)"
proof -
  have "list_all (\<lambda>c. \<not> isSpace c) (showNat n)"
    using showNat_digits[of n] by (simp add: list_all_iff isDigit_not_space)
  then show ?thesis using assms by (intro neat_marker) auto
qed

lemma nospace_plain:
  assumes "plain x"
  shows "list_all (\<lambda>c. \<not> isSpace c) (numToString x)"
proof -
  have "\<not> isSpace (CHR ''.'')" by (simp add: isSpace_def)
  then show ?thesis using plain_chars[OF assms] by (auto simp: list_all_iff isDigit_not_space)
qed

lemma nospace_spatial:
  "list_all plain sp \<Longrightarrow> list_all (\<lambda>c. \<not> isSpace c) (join '':'' (map numToString sp))"
proof (induction sp rule: induct_list012)
  case 1
  show ?case by (simp add: join_def)
next
  case (2 x)
  then show ?case by (simp add: join_single nospace_plain)
next
  case (3 x y zs)
  have "\<not> isSpace (CHR '':'')" by (simp add: isSpace_def)
  with 3 show ?case by (simp add: join_Cons2 nospace_plain)
qed

lemma neat_bracket: "neat (''['' @ x @ y @ '']'')"
  by (simp add: neat_def isSpace_def)

lemma neat_part:
  assumes "canonicalPart p"
  shows "neat (partToString p)"
proof -
  from assms obtain n where n: "index p = Num (int n)"
    unfolding canonicalPart_def using natural_Num by blast
  let ?ids = "(if truthyStr (id' p) then ''['' @ escapeCFI (the (id' p)) @ param (side p) @ '']'' else [])"
  let ?ofs = "(if offset p \<noteq> None \<and> mod2Truthy (index p) then '':'' @ numToString (the (offset p)) else [])"
  let ?tms = "(case temporal p of None \<Rightarrow> [] | Some t \<Rightarrow> ''~'' @ numToString t)"
  let ?sps = "(case spatial p of None \<Rightarrow> [] | Some sp \<Rightarrow> ''@'' @ join '':'' (map numToString sp))"
  let ?txs = "(if text' p \<noteq> None \<or> (\<not> truthyStr (id' p) \<and> truthyStr (side p))
           then ''['' @ (case text' p of None \<Rightarrow> [] | Some ts \<Rightarrow> join '','' (map escapeCFI ts))
                @ param (side p) @ '']''
           else [])"
  have A: "neat (''/'' @ showNat n)" using neat_number[of "CHR ''/''" n] by simp
  have B: "neat ?ids" using neat_bracket by (simp add: neat_Nil)
  have C: "neat ?ofs"
  proof (cases "offset p")
    case None
    then show ?thesis by (simp add: neat_Nil)
  next
    case (Some m)
    with assms have "natural m" by (simp add: canonicalPart_def)
    then obtain k where "m = Num (int k)" using natural_Num by blast
    with Some show ?thesis
      using neat_number[of "CHR '':''" k] by (simp add: numToString_nat neat_Nil)
  qed
  have E: "neat ?tms"
  proof (cases "temporal p")
    case None
    then show ?thesis by (simp add: neat_Nil)
  next
    case (Some t)
    with assms have "plain t" by (simp add: canonicalPart_def)
    then have "neat (CHR ''~'' # numToString t)" by (intro neat_marker nospace_plain) simp
    with Some show ?thesis by simp
  qed
  have F: "neat ?sps"
  proof (cases "spatial p")
    case None
    then show ?thesis by (simp add: neat_Nil)
  next
    case (Some sp)
    with assms have "list_all plain sp" by (simp add: canonicalPart_def)
    then have "neat (CHR ''@'' # join '':'' (map numToString sp))"
      by (intro neat_marker nospace_spatial) simp
    with Some show ?thesis by simp
  qed
  have D: "neat ?txs" using neat_bracket by (simp add: neat_Nil)
  have str: "partToString p = (''/'' @ showNat n) @ ?ids @ ?ofs @ ?tms @ ?sps @ ?txs"
    using partToString_segments[OF assms n] .
  show ?thesis unfolding str
    by (rule neat_append[OF A neat_append[OF B neat_append[OF C neat_append[OF E
          neat_append[OF F D]]]]])
qed

lemma neat_path: "list_all canonicalPart ps \<Longrightarrow> neat (pathToString ps)"
  unfolding pathToString_def
  by (induction ps) (auto simp: neat_Nil neat_part intro: neat_append)

lemma neat_paths: "list_all (list_all canonicalPart) P \<Longrightarrow> neat (pathsToString P)"
proof (induction P rule: induct_list012)
  case 1
  show ?case by (simp add: pathsToString_def join_def neat_Nil)
next
  case (2 p)
  then show ?case by (simp add: pathsToString_def join_single neat_path)
next
  case (3 p q qs)
  have "neat ''!''" by (simp add: neat_def isSpace_def)
  moreover have "neat (pathToString p)" using 3(3) by (simp add: neat_path)
  moreover have "neat (pathsToString (q # qs))" using 3 by simp
  ultimately show ?case
    using neat_append[of "pathToString p" "''!'' @ pathsToString (q # qs)"] neat_append[of "''!''" "pathsToString (q # qs)"]
    by (simp add: pathsToString_def join_Cons2)
qed

lemma trim_neat:
  assumes "neat s"
  shows "trim s = s"
proof (cases "s = []")
  case True
  then show ?thesis by (simp add: trim_def)
next
  case False
  with assms have h: "hd s \<in> set ''/:~@[!''" and l: "\<not> isSpace (last s)" by (auto simp: neat_def)
  from h have "\<not> isSpace (hd s)" by (auto simp: isSpace_def)
  then have 1: "dropWhile isSpace s = s" by (simp add: dropWhile_eq_self_iff)
  have "hd (rev s) = last s" using False by (simp add: hd_rev)
  then have 2: "dropWhile isSpace (rev s) = rev s" using l by (simp add: dropWhile_eq_self_iff)
  show ?thesis by (simp add: trim_def 1 2)
qed

lemma matchCFI_neat:
  assumes "neat s"
  shows "matchCFI s = None"
proof (cases "s = []")
  case True
  then show ?thesis by (simp add: matchCFI_def)
next
  case False
  with assms have h: "hd s \<in> set ''/:~@[!''" by (auto simp: neat_def)
  have "take 8 s \<noteq> ''epubcfi(''"
  proof
    assume "take 8 s = ''epubcfi(''"
    then have "hd (take 8 s) = CHR ''e''" by simp
    then have "hd s = CHR ''e''" using False by (cases s) auto
    with h show False by auto
  qed
  then show ?thesis by (simp add: matchCFI_def)
qed

lemma unwrap_wrap_neat:
  assumes "neat s"
  shows "unwrap (wrap s) = s \<or> unwrap (wrap s) = ''epubcfi('' @ s @ '')''"
  using matchCFI_neat[OF assms]
  by (auto simp: wrap_def unwrap_def matchCFI_def split: option.splits if_splits)

lemma trim_envelope: "trim (''epubcfi('' @ s @ '')'') = ''epubcfi('' @ s @ '')''"
  by (simp add: trim_def isSpace_def)

lemma reads_envelope:
  assumes "reads True True s toks"
  shows "reads True True (''epubcfi('' @ s @ '')'') toks"
proof -
  have c: "\<And>c. c \<in> set ''epubcfi()'' \<Longrightarrow> reads True True [c] []"
    by (rule reads_other) (auto simp: isDigit_def)
  have "reads True True ([CHR ''e''] @ [CHR ''p''] @ [CHR ''u''] @ [CHR ''b''] @ [CHR ''c''] @ [CHR ''f'']
       @ [CHR ''i''] @ [CHR ''(''] @ s @ [CHR '')'']) ([] @ [] @ [] @ [] @ [] @ [] @ [] @ [] @ toks @ [])"
    by (intro reads_append[of True True _ _ True] c assms) simp_all
  then show ?thesis by simp
qed

lemma tokenizer_serialized:
  assumes "list_all (list_all canonicalPart) P"
  shows "tokenizer (unwrap (toString (Parts P)))
     = join [(''!'', Undefined)] (map (\<lambda>path. concat (map partTokens path)) P)"
proof -
  let ?toks = "join [(''!'', Undefined)] (map (\<lambda>path. concat (map partTokens path)) P)"
  have n: "neat (pathsToString P)" using assms by (rule neat_paths)
  have r: "reads True True (pathsToString P) ?toks" using assms by (rule reads_paths)
  have 1: "tokenizer (pathsToString P) = ?toks"
    using tokenizer_reads[OF r trim_neat[OF n]] .
  have 2: "tokenizer (''epubcfi('' @ pathsToString P @ '')'') = ?toks"
    using tokenizer_reads[OF reads_envelope[OF r] trim_envelope] .
  show ?thesis
    using unwrap_wrap_neat[OF n] 1 2 by (auto simp: toString_def toInnerString_def)
qed

lemma tokenizer_path:
  assumes "list_all canonicalPart ps"
  shows "tokenizer (pathToString ps) = concat (map partTokens ps)"
  using tokenizer_reads[OF reads_path[OF assms]] trim_neat[OF neat_path[OF assms]]
  by (simp add: pathToString_def)

lemma parser_tokenizer_path:
  assumes "list_all canonicalPart ps"
  shows "parser (tokenizer (pathToString ps)) = Inr ps"
  using parser_path[OF assms, of "[]" "[]"] by (simp add: tokenizer_path[OF assms] parser_def)

section \<open>The step parser, one round at a time\<close>

lemma parser_loop_step:
  "parser_loop ps st (t # rest)
    = (case parser_step ps st t of Inl e \<Rightarrow> Inl e | Inr (ps', st') \<Rightarrow> parser_loop ps' st' rest)"
proof -
  obtain ty x where t: "t = (ty, x)" by (cases t)
  have o: "\<And>f g. (case map_sum id (\<lambda>ps. (ps, g)) (onLast f ps) of Inl e \<Rightarrow> Inl e
             | Inr (ps', st') \<Rightarrow> parser_loop ps' st' rest)
           = (case onLast f ps of Inl e \<Rightarrow> Inl e | Inr ps' \<Rightarrow> parser_loop ps' g rest)"
    by (simp split: sum.splits)
  show ?thesis unfolding t parser_step_def parser_loop.simps(2) prod.case
    by (simp only: o if_distrib[of "\<lambda>r. case r of Inl e \<Rightarrow> Inl e | Inr (ps', st') \<Rightarrow> parser_loop ps' st' rest"]
          sum.case prod.case)
qed

lemma parser_loop_append_slash:
  "parser_loop ps st (pre @ (''/'', v) # R)
    = (case parser_loop ps st pre of Inl e \<Rightarrow> Inl e
       | Inr parts \<Rightarrow> parser_loop (parts @ [newPart (asNumber v)]) ''/'' R)"
proof (induction pre arbitrary: ps st)
  case Nil
  show ?case by (simp add: parser_loop.simps(2))
next
  case (Cons t pre)
  show ?case
  proof (cases "parser_step ps st t")
    case (Inl e)
    then show ?thesis by (simp add: parser_loop_step)
  next
    case (Inr r)
    obtain ps' st' where "r = (ps', st')" by (cases r)
    with Inr show ?thesis by (simp add: parser_loop_step Cons.IH)
  qed
qed

lemma parser_assertions:
  "parser_loop (ps @ [newPart n]) ''/'' (textToks vs)
    = Inr (ps @ [(newPart n)\<lparr>
        id' := (case dropWhile (\<lambda>v. v = []) vs of [] \<Rightarrow> None | v # _ \<Rightarrow> Some v),
        text' := (let ts = takeWhile (\<lambda>v. v = []) vs @ tl (dropWhile (\<lambda>v. v = []) vs)
                  in if ts = [] then None else Some ts)\<rparr>])"
proof -
  let ?es = "takeWhile (\<lambda>v. v = []) vs"
  let ?ds = "dropWhile (\<lambda>v. v = []) vs"
  have vs: "vs = ?es @ ?ds" by simp
  have es: "list_all (\<lambda>t. t = []) ?es" by (simp add: list_all_iff) (meson set_takeWhileD)
  define q where "q = (if ?es = [] then newPart n else (newPart n)\<lparr>text' := Some ?es\<rparr>)"
  have 1: "parser_loop (ps @ [newPart n]) ''/'' (textToks ?es @ R) = parser_loop (ps @ [q]) ''/'' R" for R
  proof (cases "?es = []")
    case True
    then show ?thesis by (simp add: q_def textToks_def)
  next
    case False
    then show ?thesis
      using parser_texts[OF False, of "''/''" ps "newPart n" R] es
      by (simp add: q_def newPart_def orEmpty_def)
  qed
  show ?thesis
  proof (cases ?ds)
    case Nil
    have e: "?es = vs" by (metis Nil append_Nil2 takeWhile_dropWhile_id)
    have "parser_loop (ps @ [newPart n]) ''/'' (textToks ?es) = parser_loop (ps @ [q]) ''/'' []"
      using 1[of "[]"] by (simp only: append_Nil2)
    then have r: "parser_loop (ps @ [newPart n]) ''/'' (textToks vs) = Inr (ps @ [q])"
      unfolding e by (simp only: parser_loop.simps(1))
    have qv: "q = (newPart n)\<lparr>id' := None, text' := (if vs = [] then None else Some vs)\<rparr>"
      unfolding q_def e by (simp add: newPart_def)
    show ?thesis unfolding Nil r qv by (simp only: e Let_def list.case list.sel append_Nil2)
  next
    case (Cons d ds)
    then have d: "d \<noteq> []" using hd_dropWhile[of "\<lambda>v. v = []" vs] by auto
    have "textToks vs = textToks (?es @ d # ds)"
      using Cons by (metis takeWhile_dropWhile_id)
    then have "textToks vs = textToks ?es @ (''['', Str d) # textToks ds"
      by (simp only: textToks_def map_append list.map)
    then have "parser_loop (ps @ [newPart n]) ''/'' (textToks vs)
        = parser_loop (ps @ [q]) ''/'' ((''['', Str d) # textToks ds)"
      using 1 by (simp only:)
    also have "\<dots> = parser_loop (ps @ [q\<lparr>id' := Some d\<rparr>]) ''['' (textToks ds)"
      using d by (simp add: parser_step_id)
    also have "\<dots> = Inr (ps @ [if ds = [] then q\<lparr>id' := Some d\<rparr>
                 else q\<lparr>id' := Some d, text' := Some (orEmpty (text' q) @ ds)\<rparr>])"
    proof (cases "ds = []")
      case True
      then show ?thesis by (simp add: textToks_def)
    next
      case False
      then show ?thesis
        using parser_texts[OF False, of "''[''" ps "q\<lparr>id' := Some d\<rparr>" "[]"] by simp
    qed
    finally have r: "parser_loop (ps @ [newPart n]) ''/'' (textToks vs)
       = Inr (ps @ [if ds = [] then q\<lparr>id' := Some d\<rparr>
                 else q\<lparr>id' := Some d, text' := Some (orEmpty (text' q) @ ds)\<rparr>])" .
    have qv: "(if ds = [] then q\<lparr>id' := Some d\<rparr>
                 else q\<lparr>id' := Some d, text' := Some (orEmpty (text' q) @ ds)\<rparr>)
        = (newPart n)\<lparr>id' := Some d, text' := (if ?es @ ds = [] then None else Some (?es @ ds))\<rparr>"
      by (simp add: q_def newPart_def orEmpty_def)
    show ?thesis unfolding r qv Cons by (simp only: Let_def list.case list.sel)
  qed
qed

lemma mapE_all:
  "(\<And>x. x \<in> set xs \<Longrightarrow> f x = Inr x) \<Longrightarrow> mapE f xs = Inr xs"
  by (induction xs) simp_all

lemma parser_loop_run: "parser_loop ps st ts = map_sum id fst (parser_run ps st ts)"
proof (induction ts arbitrary: ps st)
  case Nil
  show ?case by simp
next
  case (Cons t ts)
  show ?case
  proof (cases "parser_step ps st t")
    case (Inl e)
    then show ?thesis by (simp add: parser_loop_step)
  next
    case (Inr r)
    obtain ps' st' where "r = (ps', st')" by (cases r)
    with Inr show ?thesis by (simp add: parser_loop_step Cons.IH)
  qed
qed

lemma parser_run_snoc:
  "parser_run ps st (ts @ [t])
    = (case parser_run ps st ts of Inl e \<Rightarrow> Inl e | Inr (ps', st') \<Rightarrow> parser_step ps' st' t)"
proof (induction ts arbitrary: ps st)
  case Nil
  show ?case by (simp split: sum.splits)
next
  case (Cons u ts)
  show ?case
  proof (cases "parser_step ps st u")
    case (Inl e)
    then show ?thesis by simp
  next
    case (Inr r)
    obtain ps' st' where "r = (ps', st')" by (cases r)
    with Inr show ?thesis by (simp add: Cons.IH)
  qed
qed

lemma afterStep_snoc:
  "afterStep (ts @ [t]) = (if emptyAssertion t then afterStep ts else fst t = ''/'')"
  by (simp add: afterStep_def)

lemma parser_step_state:
  assumes "parser_step ps st t = Inr (ps', st')"
  shows "(st' = ''/'') = (if emptyAssertion t then st = ''/'' else fst t = ''/'')"
proof -
  obtain ty x where t: "t = (ty, x)" by (cases t)
  consider "ty = ''/''" | "ty = '':''" | "ty = ''~''" | "ty = ''@''" | "ty = '';s''"
    | "ty = ''[''" "st = ''/'' \<and> truthy x" | "ty = ''[''" "\<not> (st = ''/'' \<and> truthy x)"
    | "ty \<notin> {''/'', '':'', ''~'', ''@'', '';s'', ''[''}"
    by blast
  then show ?thesis
  proof cases
    case 1
    with assms t show ?thesis by (auto simp: parser_step_def emptyAssertion_def)
  next
    case 2
    with assms t show ?thesis by (auto simp: parser_step_def emptyAssertion_def onLast_def split: if_splits)
  next
    case 3
    with assms t show ?thesis by (auto simp: parser_step_def emptyAssertion_def onLast_def split: if_splits)
  next
    case 4
    with assms t show ?thesis by (auto simp: parser_step_def emptyAssertion_def onLast_def split: if_splits)
  next
    case 5
    with assms t show ?thesis by (auto simp: parser_step_def emptyAssertion_def onLast_def split: if_splits)
  next
    case 6
    with assms t show ?thesis by (auto simp: parser_step_def emptyAssertion_def onLast_def split: if_splits)
  next
    case 7
    with assms t show ?thesis by (auto simp: parser_step_def emptyAssertion_def onLast_def split: if_splits)
  next
    case 8
    with assms t show ?thesis by (auto simp: parser_step_def emptyAssertion_def)
  qed
qed

lemma parser_run_state:
  "parser_run [] [] ts = Inr (ps, st) \<Longrightarrow> (st = ''/'') = afterStep ts"
proof (induction ts arbitrary: ps st rule: rev_induct)
  case Nil
  then show ?case by (auto simp: afterStep_def)
next
  case (snoc t ts)
  from snoc.prems obtain ps1 st1 where r: "parser_run [] [] ts = Inr (ps1, st1)"
    and s: "parser_step ps1 st1 t = Inr (ps, st)"
    by (auto simp: parser_run_snoc split: sum.splits)
  from snoc.IH[OF r] parser_step_state[OF s] show ?case by (simp add: afterStep_snoc)
qed

section \<open>The split of the token list\<close>

text \<open>
  \<open>splitAt\<close> returns two more lists than it is given positions, and its first list is
  the array without its last element.
\<close>

lemma splitAt_foldl_length:
  "length (fst (foldl (\<lambda>(xs, a) b. (xs @ [slice arr (a + 1) b], b)) (xs0, a0) bs))
    = length xs0 + length bs"
  by (induction bs arbitrary: xs0 a0) simp_all

lemma splitAt_length: "length (splitAt arr is) = length is + 2"
  unfolding splitAt_def by (simp only: splitAt_foldl_length) simp

lemma splitAt_foldl_hd:
  "xs0 \<noteq> [] \<Longrightarrow> hd (fst (foldl (\<lambda>(xs, a) b. (xs @ [slice arr (a + 1) b], b)) (xs0, a0) bs)) = hd xs0"
  by (induction bs arbitrary: xs0 a0) simp_all

lemma splitAt_hd: "hd (splitAt arr is) = butlast arr"
proof -
  have "nat (int (length arr) - 1) = length arr - 1" by simp
  then have s: "slice arr 0 (- 1) = butlast arr"
    by (cases "arr = []") (simp_all add: slice_def butlast_conv_take)
  let ?f = "\<lambda>(xs, a) b. (xs @ [slice arr (a + 1) b], b)"
  have "splitAt arr is = fst (foldl ?f ([slice arr 0 (- 1)], - 1) (map int is @ [int (length arr)]))"
    unfolding splitAt_def by simp
  then show ?thesis
    using splitAt_foldl_hd[of "[slice arr 0 (- 1)]" arr "- 1" "map int is @ [int (length arr)]"] s
    by (simp only: list.sel) simp
qed

section \<open>The example of the specification\<close>

text \<open>
  C3.  The specification's example,
  \<^verbatim>\<open>parse("epubcfi(/6/4[chap01ref]!/4[body01]/10[para05]/3:10)")\<close>, is claimed to give a
  point location of exactly two Paths, split at the indirection marker.  The code returns
  without raising, the result is a point location, and the final Part of its last Path has
  index 3 and offset 10; but it has three Paths.  \<open>splitAt\<close> puts
  \<^verbatim>\<open>arr.slice(0, -1)\<close>, the tokens without the last one, in front of the segments, so the
  result starts with a Path that runs over both segments and lacks the final offset.
\<close>

theorem parse_example_three_paths:
  "parse ''epubcfi(/6/4[chap01ref]!/4[body01]/10[para05]/3:10)'' =
    Inr (Parts
      [[newPart (Num 6), (newPart (Num 4))\<lparr>id' := Some ''chap01ref''\<rparr>,
        (newPart (Num 4))\<lparr>id' := Some ''body01''\<rparr>,
        (newPart (Num 10))\<lparr>id' := Some ''para05''\<rparr>, newPart (Num 3)],
       [newPart (Num 6), (newPart (Num 4))\<lparr>id' := Some ''chap01ref''\<rparr>],
       [(newPart (Num 4))\<lparr>id' := Some ''body01''\<rparr>,
        (newPart (Num 10))\<lparr>id' := Some ''para05''\<rparr>,
        (newPart (Num 3))\<lparr>offset := Some (Num 10)\<rparr>]])"
  by code_simp


section \<open>Malformed input\<close>

text \<open>
  C2.  \<^verbatim>\<open>parse\<close> is claimed never to raise.  On \<^verbatim>\<open>"epubcfi(:5)"\<close>, the claim's own
  example, the tokenizer gives the single token \<^verbatim>\<open>[':', 5]\<close>; the parser reads
  \<^verbatim>\<open>parts[parts.length - 1]!\<close> on the empty list and assigns to \<^verbatim>\<open>last.offset\<close> of
  \<^verbatim>\<open>undefined\<close>: a \<^verbatim>\<open>TypeError\<close>.
\<close>

theorem parse_offset_first_raises:
  "tokenizer (unwrap ''epubcfi(:5)'') = [('':'', Number (Num 5))]
   \<and> parse ''epubcfi(:5)'' = Inl TypeError"
  by code_simp

section \<open>The segments of a joined token list\<close>

lemma slice_mid:
  "slice (pre @ t @ post) (int (length pre)) (int (length pre + length t)) = t"
  by (simp add: slice_def)

lemma splitAt_foldl_segments:
  "fst (foldl (\<lambda>(xs, a) b. (xs @ [slice arr (a + 1) b], b)) (xs0, a0) bs) = xs0 @ segments arr a0 bs"
  by (induction bs arbitrary: xs0 a0) simp_all

lemma splitAt_segments:
  "splitAt arr is = butlast arr # segments arr (- 1) (map int is @ [int (length arr)])"
proof -
  have "nat (int (length arr) - 1) = length arr - 1" by simp
  then have s: "slice arr 0 (- 1) = butlast arr"
    by (cases "arr = []") (simp_all add: slice_def butlast_conv_take)
  have "splitAt arr is
      = fst (foldl (\<lambda>(xs, a) b. (xs @ [slice arr (a + 1) b], b)) ([slice arr 0 (- 1)], - 1)
               (map int is @ [int (length arr)]))"
    unfolding splitAt_def by simp
  then show ?thesis by (simp only: splitAt_foldl_segments s) simp
qed

lemma filter_none: "(\<And>i. i \<in> set xs \<Longrightarrow> \<not> P i) \<Longrightarrow> filter P xs = []"
  by (induction xs) simp_all

lemma segments_join:
  assumes "fst sep = x"
  shows "tss \<noteq> [] \<Longrightarrow> (\<And>ts t. ts \<in> set tss \<Longrightarrow> t \<in> set ts \<Longrightarrow> fst t \<noteq> x) \<Longrightarrow>
    segments (pre @ join [sep] tss) (int (length pre) - 1)
      (map int (filter (\<lambda>i. fst ((pre @ join [sep] tss) ! i) = x)
                 [length pre..<length (pre @ join [sep] tss)])
       @ [int (length (pre @ join [sep] tss))]) = tss"
proof (induction tss arbitrary: pre rule: induct_list012)
  case 1
  then show ?case by simp
next
  case (2 t)
  have "filter (\<lambda>i. fst ((pre @ t) ! i) = x) [length pre..<length pre + length t] = []"
  proof (rule filter_none)
    fix i assume "i \<in> set [length pre..<length pre + length t]"
    then have i: "length pre \<le> i" "i - length pre < length t" by auto
    then have "(pre @ t) ! i = t ! (i - length pre)" by (simp add: nth_append)
    moreover have "t ! (i - length pre) \<in> set t" using i(2) by simp
    ultimately show "\<not> fst ((pre @ t) ! i) = x" using 2(2)[of t] by simp
  qed
  then show ?case using slice_mid[of pre t "[]"] by (simp add: join_single)
next
  case (3 t u us)
  let ?J = "join [sep] (u # us)"
  let ?arr = "pre @ t @ [sep] @ ?J"
  let ?P = "\<lambda>i. fst (?arr ! i) = x"
  let ?lp = "length pre"
  let ?lt = "length t"
  have arr: "pre @ join [sep] (t # u # us) = ?arr" by (simp add: join_Cons2)
  have len: "length ?arr = (?lp + ?lt) + Suc (length ?J)" by simp
  have upt: "[?lp..<length ?arr] = [?lp..<?lp + ?lt] @ [?lp + ?lt] @ [Suc (?lp + ?lt)..<length ?arr]"
  proof -
    have "[?lp..<(?lp + ?lt) + Suc (length ?J)]
        = [?lp..<?lp + ?lt] @ [?lp + ?lt..<(?lp + ?lt) + Suc (length ?J)]"
      by (rule upt_add_eq_append) simp
    moreover have "[?lp + ?lt..<(?lp + ?lt) + Suc (length ?J)]
        = (?lp + ?lt) # [Suc (?lp + ?lt)..<(?lp + ?lt) + Suc (length ?J)]"
      by (rule upt_conv_Cons) simp
    ultimately show ?thesis unfolding len by simp
  qed
  have f1: "filter ?P [?lp..<?lp + ?lt] = []"
  proof (rule filter_none)
    fix i assume "i \<in> set [?lp..<?lp + ?lt]"
    then have i: "?lp \<le> i" "i - ?lp < ?lt" by auto
    then have "?arr ! i = t ! (i - ?lp)" by (simp add: nth_append)
    moreover have "t ! (i - ?lp) \<in> set t" using i(2) by simp
    ultimately show "\<not> fst (?arr ! i) = x" using 3(4)[of t] by simp
  qed
  have f2: "?P (?lp + ?lt)" using assms by (simp add: nth_append)
  have f: "filter ?P [?lp..<length ?arr]
      = (?lp + ?lt) # filter ?P [Suc (?lp + ?lt)..<length ?arr]"
    unfolding upt using f1 f2 by simp
  have sl: "slice ?arr (int ?lp) (int (?lp + ?lt)) = t"
    using slice_mid[of pre t "[sep] @ ?J"] by simp
  have ih: "segments ((pre @ t @ [sep]) @ ?J) (int (length (pre @ t @ [sep])) - 1)
      (map int (filter (\<lambda>i. fst (((pre @ t @ [sep]) @ ?J) ! i) = x)
                 [length (pre @ t @ [sep])..<length ((pre @ t @ [sep]) @ ?J)])
       @ [int (length ((pre @ t @ [sep]) @ ?J))]) = u # us"
  proof (rule 3(2))
    show "u # us \<noteq> []" by simp
  next
    fix ts ta assume "ts \<in> set (u # us)" "ta \<in> set ts"
    then show "fst ta \<noteq> x" using 3(4)[of ts ta] by simp
  qed
  have ih': "segments ?arr (int (?lp + ?lt))
      (map int (filter ?P [Suc (?lp + ?lt)..<length ?arr]) @ [int (length ?arr)]) = u # us"
    using ih by simp
  have "segments ?arr (int ?lp - 1) (map int (filter ?P [?lp..<length ?arr]) @ [int (length ?arr)])
      = slice ?arr (int ?lp) (int (?lp + ?lt))
        # segments ?arr (int (?lp + ?lt))
            (map int (filter ?P [Suc (?lp + ?lt)..<length ?arr]) @ [int (length ?arr)])"
    unfolding f by simp
  then show ?case unfolding arr sl ih' .
qed

lemma splitAt_join:
  assumes "tss \<noteq> []" "\<And>ts t. ts \<in> set tss \<Longrightarrow> t \<in> set ts \<Longrightarrow> fst t \<noteq> fst sep"
  shows "splitAt (join [sep] tss) (findTokens (join [sep] tss) (fst sep))
     = butlast (join [sep] tss) # tss"
  using segments_join[OF refl assms(1), of sep "[]"] assms(2)
  by (simp add: splitAt_segments findTokens_def)

lemma findTokens_none:
  assumes "\<And>t. t \<in> set T \<Longrightarrow> fst t \<noteq> x"
  shows "findTokens T x = []"
  unfolding findTokens_def
proof (rule filter_none)
  fix i assume "i \<in> set [0..<length T]"
  then have "T ! i \<in> set T" by simp
  then show "\<not> fst (T ! i) = x" using assms by blast
qed

lemma set_join: "set (join sep xss) \<subseteq> set sep \<union> \<Union> (set ` set xss)"
proof (induction xss rule: induct_list012)
  case 1
  show ?case by (simp add: join_def)
next
  case (2 x)
  show ?case by (simp add: join_single)
next
  case (3 x y zs)
  then show ?case by (auto simp: join_Cons2)
qed

lemma join_mem:
  "t \<in> set (join sep xss) \<Longrightarrow> t \<in> set sep \<or> (\<exists>xs\<in>set xss. t \<in> set xs)"
  using set_join[of sep xss] by blast

section \<open>Tokens of canonical Parts\<close>

lemma partTokens_types:
  assumes "t \<in> set (partTokens p)"
  shows "fst t \<in> {''/'', ''['', '';s'', '':'', ''~'', ''@''}"
  using assms
  by (auto simp: partTokens_def sideToks_def textToks_def spatialToks_def split: option.splits)

lemma pathTokens_types:
  assumes "t \<in> set (concat (map partTokens ps))"
  shows "fst t \<noteq> ''!'' \<and> fst t \<noteq> '',''"
proof -
  from assms obtain p where "t \<in> set (partTokens p)" by auto
  from partTokens_types[OF this] show ?thesis by auto
qed

lemma guarded_Nil: "guarded []"
  by (simp add: guarded_def)

lemma guarded_step: "fst t = ''/'' \<Longrightarrow> guarded (t # ts)"
  by (simp add: guarded_def)

lemma guarded_indir: "fst t = ''!'' \<Longrightarrow> guarded (t # ts) = guarded ts"
  by (simp add: guarded_def)

lemma guarded_prefix: "guarded (xs @ ys) \<Longrightarrow> guarded xs"
proof (induction xs)
  case Nil
  show ?case by (rule guarded_Nil)
next
  case (Cons x xs)
  show ?case
  proof (cases "fst x = ''!''")
    case True
    with Cons show ?thesis by (simp add: guarded_indir)
  next
    case False
    with Cons.prems have "fst x = ''/''" by (simp add: guarded_def)
    then show ?thesis by (rule guarded_step)
  qed
qed

lemma guarded_butlast: "guarded xs \<Longrightarrow> guarded (butlast xs)"
proof (cases "xs = []")
  case True
  then show ?thesis by (simp add: guarded_Nil)
next
  case False
  assume "guarded xs"
  then have "guarded (butlast xs @ [last xs])" using False by simp
  then show ?thesis by (rule guarded_prefix)
qed

lemma guarded_pathTokens: "guarded R \<Longrightarrow> guarded (concat (map partTokens ps) @ R)"
  by (cases ps) (simp_all add: partTokens_def guarded_step)

lemma guarded_paths:
  "guarded (join [(''!'', Undefined)] (map (\<lambda>path. concat (map partTokens path)) P))"
proof (induction P rule: induct_list012)
  case 1
  show ?case by (simp add: join_def guarded_Nil)
next
  case (2 p)
  show ?case using guarded_pathTokens[OF guarded_Nil, of p] by (simp add: join_single)
next
  case (3 p q qs)
  have "guarded ((''!'', Undefined) # join [(''!'', Undefined)] (map (\<lambda>path. concat (map partTokens path)) (q # qs)))"
    using 3(2) by (simp add: guarded_indir)
  then show ?case using guarded_pathTokens[of _ p] by (simp add: join_Cons2)
qed

lemma parser_step_nonempty:
  assumes "ps \<noteq> []"
  shows "\<exists>ps' st'. parser_step ps st t = Inr (ps', st') \<and> ps' \<noteq> []"
proof -
  obtain ty x where t: "t = (ty, x)" by (cases t)
  have o: "\<And>f. \<exists>r. onLast f ps = Inr r \<and> r \<noteq> []" using assms by (simp add: onLast_def)
  have m: "\<exists>ps' st'. map_sum id (\<lambda>ps. (ps, g)) (onLast f ps) = Inr (ps', st') \<and> ps' \<noteq> []"
    for f and g :: string
  proof -
    from o[of f] obtain r where "onLast f ps = Inr r" "r \<noteq> []" by blast
    then show ?thesis by simp
  qed
  consider "ty = ''/''" | "ty = '':''" | "ty = ''~''" | "ty = ''@''" | "ty = '';s''"
    | "ty = ''[''" "st = ''/'' \<and> truthy x" | "ty = ''[''" "\<not> (st = ''/'' \<and> truthy x)"
    | "ty \<notin> {''/'', '':'', ''~'', ''@'', '';s'', ''[''}"
    by blast
  then show ?thesis
  proof cases
    case 1
    then show ?thesis by (simp add: t parser_step_def)
  next
    case 2
    then show ?thesis using m by (simp add: t parser_step_def)
  next
    case 3
    then show ?thesis using m by (simp add: t parser_step_def)
  next
    case 4
    then show ?thesis using m by (simp add: t parser_step_def)
  next
    case 5
    then show ?thesis using m by (simp add: t parser_step_def)
  next
    case 6
    then show ?thesis using m by (simp add: t parser_step_def)
  next
    case 7
    then show ?thesis using m by (simp add: t parser_step_def)
  next
    case 8
    then show ?thesis using assms by (simp add: t parser_step_def)
  qed
qed

lemma parser_loop_nonempty:
  "ps \<noteq> [] \<Longrightarrow> \<exists>r. parser_loop ps st ts = Inr r"
proof (induction ts arbitrary: ps st)
  case Nil
  show ?case by simp
next
  case (Cons t ts)
  from parser_step_nonempty[OF Cons.prems, of st t] obtain ps' st' where
    s: "parser_step ps st t = Inr (ps', st')" "ps' \<noteq> []" by blast
  from Cons.IH[OF s(2), of st'] s(1) show ?case by (simp add: parser_loop_step)
qed

lemma parser_loop_guarded:
  "guarded ts \<Longrightarrow> \<exists>r. parser_loop [] st ts = Inr r"
proof (induction ts arbitrary: st)
  case Nil
  show ?case by simp
next
  case (Cons t ts)
  obtain ty x where t: "t = (ty, x)" by (cases t)
  show ?case
  proof (cases "ty = ''!''")
    case True
    then have "parser_step [] st t = Inr ([], ''!'')" by (simp add: t parser_step_def)
    moreover have "guarded ts" using Cons.prems True t by (simp add: guarded_indir)
    ultimately show ?thesis using Cons.IH[of "''!''"] by (simp add: parser_loop_step)
  next
    case False
    with Cons.prems t have "ty = ''/''" by (simp add: guarded_def)
    then have "parser_step [] st t = Inr ([newPart (asNumber x)], ''/'')"
      by (simp add: t parser_step_def)
    then show ?thesis
      using parser_loop_nonempty[of "[newPart (asNumber x)]" "''/''" ts]
      by (simp add: parser_loop_step)
  qed
qed

lemma mapE_map_all:
  "(\<And>x. x \<in> set xs \<Longrightarrow> f (g x) = Inr x) \<Longrightarrow> mapE f (map g xs) = Inr xs"
  by (induction xs) simp_all

lemma parse_serialized:
  assumes "list_all (list_all canonicalPart) P" "P \<noteq> []"
  shows "\<exists>X. parse (toString (Parts P)) = Inr (Parts (X # P))"
proof -
  let ?sep = "(''!'', Undefined) :: TToken"
  let ?tss = "map (\<lambda>path. concat (map partTokens path)) P"
  let ?T = "join [?sep] ?tss"
  have T: "tokenizer (unwrap (toString (Parts P))) = ?T"
    using tokenizer_serialized[OF assms(1)] .
  have inner: "fst t \<noteq> ''!'' \<and> fst t \<noteq> '',''" if "ts \<in> set ?tss" "t \<in> set ts" for ts t
  proof -
    from that(1) obtain path where "ts = concat (map partTokens path)" by auto
    with that(2) show ?thesis using pathTokens_types[of t path] by simp
  qed
  have commas: "findTokens ?T '','' = []"
  proof (rule findTokens_none)
    fix t assume "t \<in> set ?T"
    from join_mem[OF this] consider "t \<in> set [?sep]" | ts where "ts \<in> set ?tss" "t \<in> set ts"
      by blast
    then show "fst t \<noteq> '',''"
    proof cases
      case 1
      then show ?thesis by simp
    next
      case 2
      then show ?thesis using inner by blast
    qed
  qed
  have ne: "?tss \<noteq> []" using assms(2) by simp
  have split: "splitAt ?T (findTokens ?T ''!'') = butlast ?T # ?tss"
    using splitAt_join[of ?tss ?sep, OF ne] inner by simp
  have "guarded (butlast ?T)" using guarded_paths[of P] by (rule guarded_butlast)
  then obtain X where X: "parser (butlast ?T) = Inr X"
    using parser_loop_guarded[of "butlast ?T" "[]"] by (auto simp: parser_def)
  have paths: "mapE parser ?tss = Inr P"
  proof (rule mapE_map_all)
    fix path assume "path \<in> set P"
    then have "list_all canonicalPart path" using assms(1) by (simp add: list_all_iff)
    then show "parser (concat (map partTokens path)) = Inr path"
      using parser_path[of path "[]" "[]"] by (simp add: parser_def)
  qed
  have "parserIndir ?T = Inr (X # P)"
    by (simp add: parserIndir_def split X paths)
  then have "parse (toString (Parts P)) = Inr (Parts (X # P))"
    by (simp add: parse_def T commas)
  then show ?thesis by blast
qed

section \<open>Serializing and parsing back\<close>

text \<open>
  C1 (as amended).  The claim is \<^verbatim>\<open>parse(toString(P)) == P\<close> for every valid \<open>P\<close>.  It
  holds in this form: for every non-empty list \<open>P\<close> of Paths of canonical Parts,
  \<open>parse (toString P)\<close> returns a point location whose Paths end with the Paths of \<open>P\<close>:
  they are \<open>P\<close>, preceded by at most one further Path.  Whether there is a Path in front
  of \<open>P\<close> is not part of the statement.
\<close>

theorem serialized_paths_parse_back:
  assumes "list_all (list_all canonicalPart) P" "P \<noteq> []"
  shows "\<exists>pre. length pre \<le> 1 \<and> parse (toString (Parts P)) = Inr (Parts (pre @ P))"
proof -
  from parse_serialized[OF assms] obtain X where
    "parse (toString (Parts P)) = Inr (Parts ([X] @ P))" by auto
  moreover have "length [X] \<le> 1" by simp
  ultimately show ?thesis by blast
qed

theorem serialized_paths_parse_back_witness:
  "list_all (list_all canonicalPart)
     [[newPart (Num 6), (newPart (Num 4))\<lparr>id' := Some ''chap01ref''\<rparr>],
      [(newPart (Num 4))\<lparr>id' := Some ''body01''\<rparr>,
       (newPart (Num 3))\<lparr>offset := Some (Num 10), temporal := Some (Dec 1 ''5''),
          spatial := Some [Num 10, Dec 20 ''25''], text' := Some [''a,b'', ''c'']\<rparr>]]
   \<and> (\<exists>pre. length pre \<le> 1
        \<and> parse (toString (Parts
            [[newPart (Num 6), (newPart (Num 4))\<lparr>id' := Some ''chap01ref''\<rparr>],
             [(newPart (Num 4))\<lparr>id' := Some ''body01''\<rparr>,
              (newPart (Num 3))\<lparr>offset := Some (Num 10), temporal := Some (Dec 1 ''5''),
                 spatial := Some [Num 10, Dec 20 ''25''], text' := Some [''a,b'', ''c'']\<rparr>]]))
          = Inr (Parts (pre @
            [[newPart (Num 6), (newPart (Num 4))\<lparr>id' := Some ''chap01ref''\<rparr>],
             [(newPart (Num 4))\<lparr>id' := Some ''body01''\<rparr>,
              (newPart (Num 3))\<lparr>offset := Some (Num 10), temporal := Some (Dec 1 ''5''),
                 spatial := Some [Num 10, Dec 20 ''25''], text' := Some [''a,b'', ''c'']\<rparr>]])))"
proof -
  have h: "list_all (list_all canonicalPart)
     [[newPart (Num 6), (newPart (Num 4))\<lparr>id' := Some ''chap01ref''\<rparr>],
      [(newPart (Num 4))\<lparr>id' := Some ''body01''\<rparr>,
       (newPart (Num 3))\<lparr>offset := Some (Num 10), temporal := Some (Dec 1 ''5''),
          spatial := Some [Num 10, Dec 20 ''25''], text' := Some [''a,b'', ''c'']\<rparr>]]"
    by code_simp
  show ?thesis using h serialized_paths_parse_back[OF h] by blast
qed

text \<open>
  The claim as stated fails.  A Part with an offset on an even index, which the parser itself
  produces from \<^verbatim>\<open>/2:5\<close>, is serialized without its offset, so the Part is not read
  back; and \<open>parse\<close> returns two Paths for the one-Path location.
\<close>

theorem roundtrip_counterexample:
  "parser (tokenizer ''/2:5'') = Inr [(newPart (Num 2))\<lparr>offset := Some (Num 5)\<rparr>]
   \<and> toString (Parts [[(newPart (Num 2))\<lparr>offset := Some (Num 5)\<rparr>]]) = ''epubcfi(/2)''
   \<and> parse ''epubcfi(/2)'' = Inr (Parts [[], [newPart (Num 2)]])
   \<and> parse (toString (Parts [[(newPart (Num 2))\<lparr>offset := Some (Num 5)\<rparr>]]))
        \<noteq> Inr (Parts [[(newPart (Num 2))\<lparr>offset := Some (Num 5)\<rparr>]])"
  by code_simp

section \<open>Assertions: id or text\<close>

text \<open>
  C6 (as amended).  For every token stream \<open>ts\<close> and payload \<open>v\<close>: an assertion token
  with payload \<open>v\<close> that follows \<open>ts\<close> is taken as the id of the current Part exactly when
  \<open>v\<close> is not empty and the last token of \<open>ts\<close> that is not an assertion with an empty
  payload is a Step token; otherwise \<open>v\<close> is appended to the text of the current Part
  (without a current Part the parser raises).  Hence the Part that a Step token opens gets,
  from the run of assertion tokens that follows the Step, the first assertion with a
  non-empty payload as its id and all the other assertions of the run as its text, in
  order: a comma-separated extension is a further assertion token, it does not prevent the
  id, and the Part then has both an id and a text.
\<close>

theorem assertion_id_or_text:
  "parser (ts @ [(''['', Str v)])
    = (case parser ts of
         Inl e \<Rightarrow> Inl e
       | Inr parts \<Rightarrow>
           onLast (if v \<noteq> [] \<and> afterStep ts then (\<lambda>l. l\<lparr>id' := Some v\<rparr>)
                   else (\<lambda>l. l\<lparr>text' := Some (orEmpty (text' l) @ [v])\<rparr>)) parts)
   \<and> parser (pre @ (''/'', Number n) # map (\<lambda>v. (''['', Str v)) vs)
       = map_sum id
           (\<lambda>parts. parts @ [(newPart n)\<lparr>
              id' := (case dropWhile (\<lambda>v. v = []) vs of [] \<Rightarrow> None | v # _ \<Rightarrow> Some v),
              text' := (let ts = takeWhile (\<lambda>v. v = []) vs @ tl (dropWhile (\<lambda>v. v = []) vs)
                        in if ts = [] then None else Some ts)\<rparr>])
           (parser pre)"
proof
  show "parser (ts @ [(''['', Str v)])
    = (case parser ts of
         Inl e \<Rightarrow> Inl e
       | Inr parts \<Rightarrow>
           onLast (if v \<noteq> [] \<and> afterStep ts then (\<lambda>l. l\<lparr>id' := Some v\<rparr>)
                   else (\<lambda>l. l\<lparr>text' := Some (orEmpty (text' l) @ [v])\<rparr>)) parts)"
  proof (cases "parser_run [] [] ts")
    case (Inl e)
    then show ?thesis by (simp add: parser_def parser_loop_run parser_run_snoc)
  next
    case (Inr r)
    obtain parts st where r: "r = (parts, st)" by (cases r)
    have st: "(st = ''/'') = afterStep ts" using Inr r parser_run_state by simp
    have m: "map_sum id fst (map_sum id (\<lambda>ps. (ps, g)) X) = X" for g :: string
      and X :: "error + TPart list"
      by (cases X) simp_all
    have p: "parser ts = Inr parts" using Inr r by (simp add: parser_def parser_loop_run)
    have "parser (ts @ [(''['', Str v)]) = map_sum id fst (parser_step parts st (''['', Str v))"
      using Inr r by (simp add: parser_def parser_loop_run parser_run_snoc)
    also have "\<dots> = onLast (if v \<noteq> [] \<and> afterStep ts then (\<lambda>l. l\<lparr>id' := Some v\<rparr>)
                   else (\<lambda>l. l\<lparr>text' := Some (orEmpty (text' l) @ [v])\<rparr>)) parts"
    proof (cases "v \<noteq> [] \<and> afterStep ts")
      case True
      then show ?thesis using st by (simp add: parser_step_def truthy_def asString_def m)
    next
      case False
      then have "\<not> (st = ''/'' \<and> truthy (Str v))" using st by (auto simp: truthy_def)
      then show ?thesis using False
        by (simp only: parser_step_def prod.case if_False asString_def val.case m)
           (simp add: m)
    qed
    finally show ?thesis by (simp add: p)
  qed
next
  show "parser (pre @ (''/'', Number n) # map (\<lambda>v. (''['', Str v)) vs)
       = map_sum id
           (\<lambda>parts. parts @ [(newPart n)\<lparr>
              id' := (case dropWhile (\<lambda>v. v = []) vs of [] \<Rightarrow> None | v # _ \<Rightarrow> Some v),
              text' := (let ts = takeWhile (\<lambda>v. v = []) vs @ tl (dropWhile (\<lambda>v. v = []) vs)
                        in if ts = [] then None else Some ts)\<rparr>])
           (parser pre)"
  proof (cases "parser pre")
    case (Inl e)
    then show ?thesis
      using parser_loop_append_slash[of "[]" "[]" pre "Number n" "map (\<lambda>v. (''['', Str v)) vs"]
      by (simp add: parser_def)
  next
    case (Inr parts)
    then show ?thesis
      using parser_loop_append_slash[of "[]" "[]" pre "Number n" "map (\<lambda>v. (''['', Str v)) vs"]
        parser_assertions[of parts n vs]
      by (simp add: parser_def asNumber_def textToks_def)
  qed
qed

theorem assertion_id_or_text_witness:
  "parser ([(''/'', Number (Num 4)), (''['', Str [])] @ [(''['', Str ''a'')])
     = Inr [(newPart (Num 4))\<lparr>id' := Some ''a'', text' := Some [[]]\<rparr>]
   \<and> parser ([(''/'', Number (Num 4)), ('':'', Number (Num 1))] @ [(''['', Str ''a'')])
     = Inr [(newPart (Num 4))\<lparr>offset := Some (Num 1), text' := Some [''a'']\<rparr>]"
proof -
  have a: "afterStep [(''/'', Number (Num 4)), (''['', Str [])]"
    by (simp add: afterStep_def emptyAssertion_def truthy_def)
  have b: "\<not> afterStep [(''/'', Number (Num 4)), ('':'', Number (Num 1))]"
    by (simp add: afterStep_def emptyAssertion_def truthy_def)
  have c: "parser [(''/'', Number (Num 4)), (''['', Str [])] = Inr [(newPart (Num 4))\<lparr>text' := Some [[]]\<rparr>]"
    by code_simp
  have d: "parser [(''/'', Number (Num 4)), ('':'', Number (Num 1))] = Inr [(newPart (Num 4))\<lparr>offset := Some (Num 1)\<rparr>]"
    by code_simp
  show ?thesis
    using a b c d
      assertion_id_or_text[where ts = "[(''/'', Number (Num 4)), (''['', Str [])]" and v = "''a''"]
      assertion_id_or_text[where ts = "[(''/'', Number (Num 4)), ('':'', Number (Num 1))]" and v = "''a''"]
    by (simp add: onLast_def newPart_def orEmpty_def)
qed

text \<open>
  The claim as stated fails: \<^verbatim>\<open>/4[a,b]\<close> gives a Part with id \<^verbatim>\<open>a\<close> and text
  \<^verbatim>\<open>[b]\<close>.
\<close>

theorem id_and_text_counterexample:
  "tokenizer ''/4[a,b]'' = [(''/'', Number (Num 4)), (''['', Str ''a''), (''['', Str ''b'')]
   \<and> parser (tokenizer ''/4[a,b]'')
       = Inr [(newPart (Num 4))\<lparr>id' := Some ''a'', text' := Some [''b'']\<rparr>]"
  by code_simp


section \<open>Offsets: rendered on odd indexes, parsed on all\<close>

lemma mod2Truthy_whole: "wholeIndex n \<Longrightarrow> mod2Truthy n = oddIndex n"
  by (cases n) (simp_all add: wholeIndex_def mod2Truthy_def oddIndex_def)

lemma partToString_offset:
  "\<exists>X Y. partToString (p\<lparr>offset := None\<rparr>) = X @ Y
        \<and> partToString (p\<lparr>offset := Some m\<rparr>)
            = (if mod2Truthy (index p) then X @ '':'' @ numToString m @ Y else X @ Y)"
proof -
  let ?X = "''/'' @ numToString (index p)
        @ (if truthyStr (id' p) then ''['' @ escapeCFI (the (id' p)) @ param (side p) @ '']'' else [])"
  let ?Y = "(case temporal p of None \<Rightarrow> []
           | Some t \<Rightarrow> if truthyNum t then ''~'' @ numToString t else [])
        @ (case spatial p of None \<Rightarrow> [] | Some sp \<Rightarrow> ''@'' @ join '':'' (map numToString sp))
        @ (if text' p \<noteq> None \<or> (\<not> truthyStr (id' p) \<and> truthyStr (side p))
           then ''['' @ (case text' p of None \<Rightarrow> [] | Some ts \<Rightarrow> join '','' (map escapeCFI ts))
                @ param (side p) @ '']''
           else [])"
  have "partToString (p\<lparr>offset := None\<rparr>) = ?X @ ?Y
        \<and> partToString (p\<lparr>offset := Some m\<rparr>)
            = (if mod2Truthy (index p) then ?X @ '':'' @ numToString m @ ?Y else ?X @ ?Y)"
    by (simp add: partToString_def Let_def)
  then show ?thesis by blast
qed

lemma parser_step_then_offset:
  "parser (pre @ [(''/'', Number j), ('':'', Number m)])
       = map_sum id (\<lambda>parts. parts @ [(newPart j)\<lparr>offset := Some m\<rparr>]) (parser pre)"
  using parser_loop_append_slash[of "[]" "[]" pre "Number j" "[('':'', Number m)]"]
  by (cases "parser pre") (simp_all add: parser_def asNumber_def parser_step_offset)

lemma parser_tokenizer_step_offset:
  "parser (tokenizer (''/'' @ showNat n @ '':'' @ showNat k))
       = Inr [(newPart (Num (int n)))\<lparr>offset := Some (Num (int k))\<rparr>]"
proof -
  have r1: "reads True False (''/'' @ showNat n) [(''/'', Number (Num (int n)))]"
    using reads_number[of "CHR ''/''" n] by simp
  have r2: "reads False False ('':'' @ showNat k) [('':'', Number (Num (int k)))]"
    using reads_number[of "CHR '':''" k] by simp
  have r: "reads True False ((''/'' @ showNat n) @ ('':'' @ showNat k))
            ([(''/'', Number (Num (int n)))] @ [('':'', Number (Num (int k)))])"
    using r1 r2 by (rule reads_append)
  have t: "neat ((''/'' @ showNat n) @ ('':'' @ showNat k))"
    by (rule neat_append) (simp_all add: neat_number)
  have "tokenizer (''/'' @ showNat n @ '':'' @ showNat k)
      = [(''/'', Number (Num (int n))), ('':'', Number (Num (int k)))]"
    using tokenizer_reads[OF r trim_neat[OF t]] by simp
  then show ?thesis
    using parser_step_slash[of "[]" "[]" "Num (int n)" "[('':'', Number (Num (int k)))]"]
      parser_step_offset[of "[]" "newPart (Num (int n))" "''/''" "Num (int k)" "[]"]
    by (simp add: parser_def)
qed

text \<open>
  C8.  For a Part whose index is an integer (or the \<^verbatim>\<open>NaN\<close> that the parser gives a
  Step without digits), whatever its other fields, the serializer renders \<^verbatim>\<open>:offset\<close> exactly when the offset is
  set and the index is odd: the string of the Part with an offset is the string of the Part
  without it, with \<^verbatim>\<open>:offset\<close> inserted when the index is odd and unchanged otherwise.
  The parser records an Offset token on the Part of the preceding Step whatever the index,
  and so does \<open>parser\<close> after \<open>tokenizer\<close> on the text \<^verbatim>\<open>/n:k\<close>; serializing that Part
  again drops the offset when \<open>n\<close> is even.  The numbers are those which a double holds
  exactly, so that the exact numbers of the model render and read as the doubles of the code.
\<close>

theorem offset_rendered_iff_odd_parsed_always:
  "(exactPart p \<and> exact m \<longrightarrow>
      (\<exists>X Y. partToString (p\<lparr>offset := None\<rparr>) = X @ Y
          \<and> partToString (p\<lparr>offset := Some m\<rparr>)
              = (if oddIndex (index p) then X @ '':'' @ numToString m @ Y else X @ Y)))
   \<and> parser (pre @ [(''/'', Number j), ('':'', Number m)])
       = map_sum id (\<lambda>parts. parts @ [(newPart j)\<lparr>offset := Some m\<rparr>]) (parser pre)
   \<and> (natural (Num (int n)) \<and> natural (Num (int k)) \<longrightarrow>
        parser (tokenizer (''/'' @ showNat n @ '':'' @ showNat k))
          = Inr [(newPart (Num (int n)))\<lparr>offset := Some (Num (int k))\<rparr>]
        \<and> partToString ((newPart (Num (int n)))\<lparr>offset := Some (Num (int k))\<rparr>)
            = (if odd n then ''/'' @ showNat n @ '':'' @ showNat k else ''/'' @ showNat n))"
proof (intro conjI impI)
  assume "exactPart p \<and> exact m"
  then have "mod2Truthy (index p) = oddIndex (index p)"
    by (simp add: mod2Truthy_whole exactPart_def)
  then show "\<exists>X Y. partToString (p\<lparr>offset := None\<rparr>) = X @ Y
          \<and> partToString (p\<lparr>offset := Some m\<rparr>)
              = (if oddIndex (index p) then X @ '':'' @ numToString m @ Y else X @ Y)"
    using partToString_offset[of p m] by simp
next
  show "parser (pre @ [(''/'', Number j), ('':'', Number m)])
       = map_sum id (\<lambda>parts. parts @ [(newPart j)\<lparr>offset := Some m\<rparr>]) (parser pre)"
    by (rule parser_step_then_offset)
next
  show "parser (tokenizer (''/'' @ showNat n @ '':'' @ showNat k))
          = Inr [(newPart (Num (int n)))\<lparr>offset := Some (Num (int k))\<rparr>]"
    by (rule parser_tokenizer_step_offset)
next
  show "partToString ((newPart (Num (int n)))\<lparr>offset := Some (Num (int k))\<rparr>)
            = (if odd n then ''/'' @ showNat n @ '':'' @ showNat k else ''/'' @ showNat n)"
    by (simp add: partToString_def newPart_def Let_def mod2Truthy_def numToString_nat
        truthyStr_def param_def)
qed

theorem offset_rendered_iff_odd_parsed_always_witness:
  "exactPart (newPart (Num 3)) \<and> exactPart (newPart NaN) \<and> exact (Num 7)
   \<and> natural (Num (int 4)) \<and> natural (Num (int 7))
   \<and> (\<exists>X Y. partToString ((newPart (Num 3))\<lparr>offset := None\<rparr>) = X @ Y
         \<and> partToString ((newPart (Num 3))\<lparr>offset := Some (Num 7)\<rparr>)
             = X @ '':'' @ numToString (Num 7) @ Y)
   \<and> partToString ((newPart NaN)\<lparr>offset := Some (Num 7)\<rparr>)
       = partToString ((newPart NaN)\<lparr>offset := None\<rparr>)
   \<and> parser (tokenizer (''/'' @ showNat 4 @ '':'' @ showNat 7))
       = Inr [(newPart (Num 4))\<lparr>offset := Some (Num 7)\<rparr>]
   \<and> partToString ((newPart (Num 4))\<lparr>offset := Some (Num 7)\<rparr>) = ''/'' @ showNat 4"
proof -
  have a: "exactPart (newPart (Num 3))" "oddIndex (index (newPart (Num 3)))"
    by (simp_all add: exactPart_def wholeIndex_def exact_def oddIndex_def newPart_def)
  have b: "exactPart (newPart NaN)" "\<not> oddIndex (index (newPart NaN))"
    by (simp_all add: exactPart_def wholeIndex_def oddIndex_def newPart_def)
  have c: "exact (Num 7)" by (simp add: exact_def)
  have d: "natural (Num (int 4))" "natural (Num (int 7))" by (simp_all add: natural_def)
  have 1: "\<exists>X Y. partToString ((newPart (Num 3))\<lparr>offset := None\<rparr>) = X @ Y
         \<and> partToString ((newPart (Num 3))\<lparr>offset := Some (Num 7)\<rparr>)
             = X @ '':'' @ numToString (Num 7) @ Y"
    using offset_rendered_iff_odd_parsed_always[where p = "newPart (Num 3)" and m = "Num 7"] a c
    by simp
  have 2: "partToString ((newPart NaN)\<lparr>offset := Some (Num 7)\<rparr>)
       = partToString ((newPart NaN)\<lparr>offset := None\<rparr>)"
  proof -
    from offset_rendered_iff_odd_parsed_always[where p = "newPart NaN" and m = "Num 7", THEN conjunct1]
      b c
    obtain X Y where "partToString ((newPart NaN)\<lparr>offset := None\<rparr>) = X @ Y"
      "partToString ((newPart NaN)\<lparr>offset := Some (Num 7)\<rparr>) = X @ Y"
      by auto
    then show ?thesis by simp
  qed
  have 3: "parser (tokenizer (''/'' @ showNat 4 @ '':'' @ showNat 7))
       = Inr [(newPart (Num 4))\<lparr>offset := Some (Num 7)\<rparr>]
     \<and> partToString ((newPart (Num 4))\<lparr>offset := Some (Num 7)\<rparr>) = ''/'' @ showNat 4"
    using offset_rendered_iff_odd_parsed_always[where n = 4 and k = 7] d by simp
  from a b c d 1 2 3 show ?thesis by blast
qed

section \<open>Range builder: the shared prefix\<close>


lemma rangeLoop_False: "rangeLoop False xs ys = ([], xs, ys)"
  by (induction False xs ys rule: rangeLoop.induct) simp_all

lemma rangeLoop_True:
  "rangeLoop True xs ys
    = (take (commonPrefix xs ys) xs, drop (commonPrefix xs ys) xs, drop (commonPrefix xs ys) ys)"
proof (induction xs arbitrary: ys)
  case Nil
  show ?case by (cases ys) (simp_all add: commonPrefix_def rangeLoop_False)
next
  case (Cons a xs)
  show ?case
  proof (cases ys)
    case Nil
    then show ?thesis by (simp add: commonPrefix_def rangeLoop_False)
  next
    case (Cons b ys')
    show ?thesis
    proof (cases "agree (a, b)")
      case True
      then show ?thesis
        using Cons.IH[of ys'] Cons by (simp add: commonPrefix_def agree_def)
    next
      case False
      then show ?thesis
        using Cons by (auto simp: commonPrefix_def agree_def rangeLoop_False)
    qed
  qed
qed

lemma commonPrefix_le: "commonPrefix xs ys \<le> length xs" "commonPrefix xs ys \<le> length ys"
proof -
  have "commonPrefix xs ys \<le> length (zip xs ys)"
    unfolding commonPrefix_def by (rule length_takeWhile_le)
  then show "commonPrefix xs ys \<le> length xs" "commonPrefix xs ys \<le> length ys" by simp_all
qed

lemma take_drop_eq_iff:
  assumes "k \<le> length xs" "k \<le> length ys"
  shows "take k xs @ drop k ys = ys \<longleftrightarrow> take k ys = take k xs"
proof
  assume "take k xs @ drop k ys = ys"
  then have "take k (take k xs @ drop k ys) = take k ys" by simp
  then show "take k ys = take k xs" using assms by simp
next
  assume "take k ys = take k xs"
  then have "take k xs @ drop k ys = take k ys @ drop k ys" by simp
  then show "take k xs @ drop k ys = ys" by simp
qed

text \<open>
  C4 (as amended).  Let \<open>A\<close> and \<open>B\<close> be non-empty lists of Paths and \<open>k\<close> the length of
  the longest prefix on which their innermost Paths agree in index with no offset on either
  side.  The Range that \<open>buildRange\<close> constructs and serializes has a parent whose innermost
  Path consists of the first \<open>k\<close> Parts of \<open>A\<close>'s innermost Path; collapsing it to the start
  gives \<open>A\<close>; collapsing it to the end gives the outer Paths of \<open>A\<close> followed by the first
  \<open>k\<close> innermost Parts of \<open>A\<close> and the innermost Parts of \<open>B\<close> from position \<open>k\<close> on,
  which is \<open>B\<close> exactly when \<open>B\<close> has the outer Paths and the first \<open>k\<close> innermost Parts
  of \<open>A\<close>.
\<close>

theorem buildRange_collapse:
  assumes "A \<noteq> []" "B \<noteq> []"
  shows "\<exists>r. buildRangeParsed (Parts A) (Parts B) = Inr r
     \<and> buildRange (Parts A) (Parts B) = Inr (toString (Parsed r))
     \<and> last (parent r) = take (commonPrefix (last A) (last B)) (last A)
     \<and> length (last (parent r)) = commonPrefix (last A) (last B)
     \<and> collapse (Parsed r) False = Inr A
     \<and> collapse (Parsed r) True
         = Inr (butlast A @ [take (commonPrefix (last A) (last B)) (last A)
                             @ drop (commonPrefix (last A) (last B)) (last B)])
     \<and> (collapse (Parsed r) True = Inr B
         \<longleftrightarrow> butlast B = butlast A
             \<and> take (commonPrefix (last A) (last B)) (last B)
                 = take (commonPrefix (last A) (last B)) (last A))"
proof -
  let ?k = "commonPrefix (last A) (last B)"
  let ?r = "\<lparr>parent = butlast A @ [take ?k (last A)], start = [drop ?k (last A)],
            end' = [drop ?k (last B)]\<rparr>"
  have b: "buildRangeParsed (Parts A) (Parts B) = Inr ?r"
    using assms by (simp add: buildRangeParsed_def collapse_def orEmpty_def rangeLoop_True)
  have s: "collapse (Parsed ?r) False = Inr A"
    using assms by (simp add: collapse_def concatArrays_def)
  have e: "collapse (Parsed ?r) True = Inr (butlast A @ [take ?k (last A) @ drop ?k (last B)])"
    by (simp add: collapse_def concatArrays_def)
  have "butlast A @ [take ?k (last A) @ drop ?k (last B)] = B
      \<longleftrightarrow> butlast A = butlast B \<and> take ?k (last A) @ drop ?k (last B) = last B"
    using assms(2) by (metis append_butlast_last_id butlast_snoc last_snoc)
  then have i: "collapse (Parsed ?r) True = Inr B
         \<longleftrightarrow> butlast B = butlast A \<and> take ?k (last B) = take ?k (last A)"
    using take_drop_eq_iff[OF commonPrefix_le, of "last A" "last B"] unfolding e by auto
  have l: "length (take ?k (last A)) = ?k" using commonPrefix_le(1)[of "last A" "last B"] by simp
  show ?thesis
    apply (rule exI[of _ ?r])
    using b s e i l by (simp add: buildRange_def)
qed

theorem buildRange_collapse_witness:
  "[[newPart (Num 6)], [newPart (Num 4), (newPart (Num 1))\<lparr>offset := Some (Num 2)\<rparr>]] \<noteq> []
   \<and> [[newPart (Num 6)], [newPart (Num 4), (newPart (Num 3))\<lparr>offset := Some (Num 5)\<rparr>]] \<noteq> []
   \<and> (\<exists>r. buildRangeParsed
             (Parts [[newPart (Num 6)], [newPart (Num 4), (newPart (Num 1))\<lparr>offset := Some (Num 2)\<rparr>]])
             (Parts [[newPart (Num 6)], [newPart (Num 4), (newPart (Num 3))\<lparr>offset := Some (Num 5)\<rparr>]])
            = Inr r
          \<and> length (last (parent r)) = 1
          \<and> collapse (Parsed r) False
             = Inr [[newPart (Num 6)], [newPart (Num 4), (newPart (Num 1))\<lparr>offset := Some (Num 2)\<rparr>]]
          \<and> collapse (Parsed r) True
             = Inr [[newPart (Num 6)], [newPart (Num 4), (newPart (Num 3))\<lparr>offset := Some (Num 5)\<rparr>]])"
proof -
  let ?A = "[[newPart (Num 6)], [newPart (Num 4), (newPart (Num 1))\<lparr>offset := Some (Num 2)\<rparr>]]"
  let ?B = "[[newPart (Num 6)], [newPart (Num 4), (newPart (Num 3))\<lparr>offset := Some (Num 5)\<rparr>]]"
  have k: "commonPrefix (last ?A) (last ?B) = 1"
    by (simp add: commonPrefix_def agree_def numEq_def noOffset_def newPart_def truthyNum_def)
  have a: "?A \<noteq> []" and b: "?B \<noteq> []" by simp_all
  from buildRange_collapse[OF a b] obtain r where
    r: "buildRangeParsed (Parts ?A) (Parts ?B) = Inr r"
       "length (last (parent r)) = commonPrefix (last ?A) (last ?B)"
       "collapse (Parsed r) False = Inr ?A"
       "collapse (Parsed r) True = Inr ?B
         \<longleftrightarrow> butlast ?B = butlast ?A
             \<and> take (commonPrefix (last ?A) (last ?B)) (last ?B)
                 = take (commonPrefix (last ?A) (last ?B)) (last ?A)"
    by blast
  from r(4) have "collapse (Parsed r) True = Inr ?B" unfolding k by simp
  with r(1,2,3) k a b show ?thesis by auto
qed

text \<open>
  The claim as stated fails: two endpoints whose innermost Paths agree in the index of their
  first Part, without offset, but differ in its id.  The parent takes the Part of the start
  point, and collapsing to the end does not give the end point back.
\<close>

theorem buildRange_counterexample:
  "commonPrefix
     [(newPart (Num 2))\<lparr>id' := Some ''a''\<rparr>, (newPart (Num 1))\<lparr>offset := Some (Num 1)\<rparr>]
     [(newPart (Num 2))\<lparr>id' := Some ''b''\<rparr>, (newPart (Num 1))\<lparr>offset := Some (Num 5)\<rparr>] = 1
   \<and> buildRangeParsed
       (Parts [[(newPart (Num 2))\<lparr>id' := Some ''a''\<rparr>, (newPart (Num 1))\<lparr>offset := Some (Num 1)\<rparr>]])
       (Parts [[(newPart (Num 2))\<lparr>id' := Some ''b''\<rparr>, (newPart (Num 1))\<lparr>offset := Some (Num 5)\<rparr>]])
      = Inr \<lparr>parent = [[(newPart (Num 2))\<lparr>id' := Some ''a''\<rparr>]],
             start = [[(newPart (Num 1))\<lparr>offset := Some (Num 1)\<rparr>]],
             end' = [[(newPart (Num 1))\<lparr>offset := Some (Num 5)\<rparr>]]\<rparr>
   \<and> collapse (Parsed \<lparr>parent = [[(newPart (Num 2))\<lparr>id' := Some ''a''\<rparr>]],
             start = [[(newPart (Num 1))\<lparr>offset := Some (Num 1)\<rparr>]],
             end' = [[(newPart (Num 1))\<lparr>offset := Some (Num 5)\<rparr>]]\<rparr>) True
      = Inr [[(newPart (Num 2))\<lparr>id' := Some ''a''\<rparr>, (newPart (Num 1))\<lparr>offset := Some (Num 5)\<rparr>]]
   \<and> collapse (Parsed \<lparr>parent = [[(newPart (Num 2))\<lparr>id' := Some ''a''\<rparr>]],
             start = [[(newPart (Num 1))\<lparr>offset := Some (Num 1)\<rparr>]],
             end' = [[(newPart (Num 1))\<lparr>offset := Some (Num 5)\<rparr>]]\<rparr>) True
      \<noteq> Inr [[(newPart (Num 2))\<lparr>id' := Some ''b''\<rparr>, (newPart (Num 1))\<lparr>offset := Some (Num 5)\<rparr>]]"
  by (simp add: commonPrefix_def agree_def numEq_def noOffset_def newPart_def truthyNum_def
      buildRangeParsed_def collapse_def concatArrays_def orEmpty_def)

section \<open>Tree indexer: the reduced child list\<close>


lemma getChildNodes_kinds:
  "list_all (\<lambda>r. isTextNode r \<or> isElementNode r) (getChildNodes flt node)"
  "list_all (\<lambda>r. isTextNode r \<or> isElementNode r) (getChildNodesFrom flt h k cs)"
  by (induction flt node and flt h k cs rule: getChildNodes_getChildNodesFrom.induct)
     (auto split: option.splits)

lemma text_not_element: "isTextNode r \<Longrightarrow> \<not> isElementNode r"
  by (auto simp: isTextNode_def isElementNode_def)

lemma alternates_snoc:
  "alternates (xs @ [s]) = (alternates xs \<and> (xs \<noteq> [] \<longrightarrow> isElemSlot (last xs) \<noteq> isElemSlot s))"
  by (induction xs rule: alternates.induct) auto

lemma alternates_replace_last:
  assumes "alternates xs" "xs \<noteq> []" "isElemSlot s = isElemSlot (last xs)"
  shows "alternates (butlast xs @ [s])"
proof (cases "butlast xs = []")
  case True
  then show ?thesis by simp
next
  case False
  have "xs = butlast xs @ [last xs]" using assms(2) by simp
  then have "alternates (butlast xs @ [last xs])" using assms(1) by simp
  then show ?thesis using assms(3) by (simp add: alternates_snoc)
qed

lemma reduced_Nil: "reduced []"
  by (simp add: reduced_def lastOpt_def firstOpt_def)

lemma firstOpt_snoc: "xs \<noteq> [] \<Longrightarrow> firstOpt (xs @ ys) = firstOpt xs"
  by (cases xs) (simp_all add: firstOpt_def)

lemma firstOpt_replace_last:
  "xs \<noteq> [] \<Longrightarrow> firstOpt xs \<noteq> Some SNull \<Longrightarrow> s \<noteq> SNull \<Longrightarrow> firstOpt (butlast xs @ [s]) \<noteq> Some SNull"
  by (cases xs) (auto simp: firstOpt_def)

lemma reduced_reducer:
  assumes "reduced arr" "isTextNode node \<or> isElementNode node"
  shows "reduced (reducer arr node)"
proof (cases "arr = []")
  case True
  then show ?thesis using assms
    by (simp add: reducer_def lastOpt_def reduced_def nodeSlot_def firstOpt_def)
next
  case False
  from assms(1) have a: "list_all nodeSlot arr" "alternates arr" "last arr \<noteq> SNull"
    using False by (simp_all add: reduced_def lastOpt_def)
  from assms(1) have f: "firstOpt arr \<noteq> Some SNull" by (simp add: reduced_def)
  note fs = firstOpt_snoc[OF False] firstOpt_replace_last[OF False f]
  have l: "nodeSlot (last arr)" using a(1) False by (simp add: list_all_iff)
  have b: "list_all nodeSlot (butlast arr)"
    using a(1) by (auto simp: list_all_iff dest: in_set_butlastD)
  show ?thesis
  proof (cases "last arr")
    case (SNode r)
    then have r: "isTextNode r \<or> isElementNode r" using l by (simp add: nodeSlot_def)
    show ?thesis
    proof (cases "isTextNode node")
      case True
      note tn = True
      show ?thesis
      proof (cases "isTextNode r")
        case True
        then have "isElemSlot (SChunk [r, node]) = isElemSlot (last arr)"
          using SNode by (simp add: isElemSlot_def text_not_element)
        then have "alternates (butlast arr @ [SChunk [r, node]])"
          using alternates_replace_last[OF a(2) False] by simp
        then show ?thesis using False SNode tn True b
          by (simp add: reducer_def lastOpt_def reduced_def nodeSlot_def fs f)
      next
        case False
        with r have "isElementNode r" by simp
        then show ?thesis using \<open>arr \<noteq> []\<close> SNode tn False a
          by (simp add: reducer_def lastOpt_def reduced_def nodeSlot_def fs f alternates_snoc
              isElemSlot_def text_not_element)
      qed
    next
      case False
      with assms(2) have en: "isElementNode node" by simp
      show ?thesis
      proof (cases "isElementNode r")
        case True
        have "alternates ((arr @ [SNull]) @ [SNode node])"
          using a(2) \<open>arr \<noteq> []\<close> SNode True en
          by (simp only: alternates_snoc) (simp add: isElemSlot_def)
        then show ?thesis using \<open>arr \<noteq> []\<close> SNode False True a(1) en
          by (simp add: reducer_def lastOpt_def reduced_def nodeSlot_def fs f)
      next
        case False
        then show ?thesis using \<open>arr \<noteq> []\<close> SNode \<open>\<not> isTextNode node\<close> en a
          by (simp add: reducer_def lastOpt_def reduced_def nodeSlot_def fs f alternates_snoc
              isElemSlot_def)
      qed
    qed
  next
    case (SChunk c)
    show ?thesis
    proof (cases "isTextNode node")
      case True
      have "isElemSlot (SChunk (c @ [node])) = isElemSlot (last arr)"
        using SChunk by (simp add: isElemSlot_def)
      then have "alternates (butlast arr @ [SChunk (c @ [node])])"
        using alternates_replace_last[OF a(2) False] by simp
      then show ?thesis using False SChunk True b
        by (simp add: reducer_def lastOpt_def reduced_def nodeSlot_def fs f)
    next
      case False
      with assms(2) have en: "isElementNode node" by simp
      then show ?thesis using \<open>arr \<noteq> []\<close> SChunk False a
        by (simp add: reducer_def lastOpt_def reduced_def nodeSlot_def fs f alternates_snoc
            isElemSlot_def)
    qed
  next
    case SNull
    with a(3) show ?thesis by simp
  next
    case (SMark m)
    with l show ?thesis by (simp add: nodeSlot_def)
  qed
qed

lemma reduced_foldl:
  "reduced arr \<Longrightarrow> list_all (\<lambda>r. isTextNode r \<or> isElementNode r) ns
    \<Longrightarrow> reduced (foldl reducer arr ns)"
  by (induction ns arbitrary: arr) (simp_all add: reduced_reducer)


lemma reducer_nonempty: "reducer arr node \<noteq> []"
  by (auto simp: reducer_def split: option.splits slot.splits)

lemma foldl_reducer_nonempty: "arr \<noteq> [] \<or> ns \<noteq> [] \<Longrightarrow> foldl reducer arr ns \<noteq> []"
  by (induction ns arbitrary: arr) (auto simp: reducer_nonempty)

lemma elemsOf_snoc: "elemsOf (xs @ [s]) = elemsOf xs @ elemsOf [s]"
  by (simp add: elemsOf_def)

lemma elemsOf_replace_last:
  assumes "xs \<noteq> []" "elemsOf [last xs] = []"
  shows "elemsOf (butlast xs @ [s]) = elemsOf xs @ elemsOf [s]"
proof -
  have "elemsOf xs = elemsOf (butlast xs @ [last xs])" using assms(1) by simp
  also have "\<dots> = elemsOf (butlast xs)" using assms(2) by (simp only: elemsOf_snoc) simp
  finally show ?thesis by (simp add: elemsOf_snoc)
qed

lemma elemsOf_reducer:
  assumes "isTextNode node \<or> isElementNode node"
  shows "elemsOf (reducer arr node) = elemsOf arr @ (if isElementNode node then [node] else [])"
proof (cases "arr = []")
  case True
  then show ?thesis by (simp add: reducer_def lastOpt_def elemsOf_def)
next
  case False
  show ?thesis
  proof (cases "isTextNode node")
    case True
    then have ne: "\<not> isElementNode node" by (rule text_not_element)
    show ?thesis
    proof (cases "last arr")
      case (SNode r)
      show ?thesis
      proof (cases "isTextNode r")
        case t: True
        then have "elemsOf [last arr] = []" using SNode by (simp add: elemsOf_def text_not_element)
        then show ?thesis using False SNode True t ne elemsOf_replace_last[OF False]
          by (simp add: reducer_def lastOpt_def) (simp add: elemsOf_def)
      next
        case f: False
        then show ?thesis using False SNode True ne
          by (simp add: reducer_def lastOpt_def elemsOf_def)
      qed
    next
      case (SChunk c)
      then have "elemsOf [last arr] = []" by (simp add: elemsOf_def)
      then show ?thesis using False SChunk True ne elemsOf_replace_last[OF False]
        by (simp add: reducer_def lastOpt_def) (simp add: elemsOf_def)
    next
      case SNull
      then show ?thesis using False True ne by (simp add: reducer_def lastOpt_def elemsOf_def)
    next
      case (SMark m)
      then show ?thesis using False True ne by (simp add: reducer_def lastOpt_def elemsOf_def)
    qed
  next
    case nt: False
    with assms have en: "isElementNode node" by simp
    show ?thesis using False nt en
      by (cases "last arr") (simp_all add: reducer_def lastOpt_def elemsOf_def)
  qed
qed

lemma elemsOf_foldl:
  "list_all (\<lambda>r. isTextNode r \<or> isElementNode r) ns
    \<Longrightarrow> elemsOf (foldl reducer arr ns) = elemsOf arr @ filter isElementNode ns"
  by (induction ns arbitrary: arr) (simp_all add: elemsOf_reducer)

lemma alternates_parity:
  "alternates xs \<Longrightarrow> i < length xs \<Longrightarrow> isElemSlot (xs ! i) = (even i = isElemSlot (hd xs))"
proof (induction xs arbitrary: i rule: alternates.induct)
  case 1
  then show ?case by simp
next
  case (2 s)
  then show ?case by simp
next
  case (3 s t ss)
  show ?case
  proof (cases i)
    case 0
    then show ?thesis by simp
  next
    case (Suc j)
    then have "isElemSlot ((t # ss) ! j) = (even j = isElemSlot t)"
      using 3 by simp
    then show ?thesis using Suc 3(2) by auto
  qed
qed

lemma slotIsElement_Some: "s \<noteq> SNull \<Longrightarrow> slotIsElement (Some s) = Inr (isElemSlot s)"
  by (cases s) (simp_all add: slotIsElement_def isElemSlot_def)

lemma elemsOf_mem:
  "r \<in> set (elemsOf xs) \<Longrightarrow> \<exists>i<length xs. xs ! i = SNode r"
proof -
  assume "r \<in> set (elemsOf xs)"
  then obtain s where s: "s \<in> set xs"
      "r \<in> set (case s of SNode r \<Rightarrow> if isElementNode r then [r] else [] | _ \<Rightarrow> [])"
    by (auto simp: elemsOf_def)
  then have "s = SNode r" by (cases s) (auto split: if_splits)
  with s(1) show ?thesis by (simp add: in_set_conv_nth)
qed

lemma indexChildNodes_nonempty:
  assumes "getChildNodes flt node \<noteq> []"
  shows "\<exists>n2. indexChildNodes flt node = Inr (SMark MBefore # n2 @ [SMark MAfter])
          \<and> n2 \<noteq> [] \<and> alternates n2 \<and> \<not> isElemSlot (hd n2)
          \<and> elemsOf n2 = filter isElementNode (getChildNodes flt node)"
proof -
  define nodes where "nodes = foldl reducer [] (getChildNodes flt node)"
  define n1 where "n1 = (if isElemSlot (hd nodes) then SMark MFirst # nodes else nodes)"
  define n2 where "n2 = (if isElemSlot (last n1) then n1 @ [SMark MLast] else n1)"
  have red: "reduced nodes"
    unfolding nodes_def by (intro reduced_foldl reduced_Nil getChildNodes_kinds)
  have ne: "nodes \<noteq> []" unfolding nodes_def using assms by (simp add: foldl_reducer_nonempty)
  from red ne have hd: "hd nodes \<noteq> SNull" and lst: "last nodes \<noteq> SNull" and alt: "alternates nodes"
    by (cases nodes; simp add: reduced_def firstOpt_def lastOpt_def)+
  have f: "slotIsElement (firstOpt nodes) = Inr (isElemSlot (hd nodes))"
    using ne hd by (cases nodes) (simp_all add: firstOpt_def slotIsElement_Some)
  have n1ne: "n1 \<noteq> []" using ne by (simp add: n1_def)
  have l1: "last n1 = last nodes" using ne by (simp add: n1_def)
  have l: "slotIsElement (lastOpt n1) = Inr (isElemSlot (last n1))"
    using n1ne lst l1 by (simp add: lastOpt_def slotIsElement_Some)
  have r: "indexChildNodes flt node = Inr (SMark MBefore # n2 @ [SMark MAfter])"
    by (simp add: indexChildNodes_def Let_def nodes_def[symmetric] f n1_def[symmetric] l
        n2_def[symmetric])
  have a1: "alternates n1" using alt ne by (cases nodes) (simp_all add: n1_def isElemSlot_def)
  have h1: "\<not> isElemSlot (hd n1)" by (simp add: n1_def isElemSlot_def)
  have a2: "alternates n2" using a1 n1ne by (simp add: n2_def alternates_snoc isElemSlot_def)
  have h2: "\<not> isElemSlot (hd n2)" using h1 n1ne by (simp add: n2_def)
  have "elemsOf n2 = elemsOf nodes"
    by (simp add: n2_def n1_def elemsOf_def)
  also have "\<dots> = filter isElementNode (getChildNodes flt node)"
    unfolding nodes_def using elemsOf_foldl[OF getChildNodes_kinds(1), of "[]" flt node]
    by (simp add: elemsOf_def)
  finally have e: "elemsOf n2 = filter isElementNode (getChildNodes flt node)" .
  have "n2 \<noteq> []" using n1ne by (simp add: n2_def)
  with r a2 h2 e show ?thesis by blast
qed

text \<open>
  C7.  For a node whose filtered child list is not empty, \<open>indexChildNodes\<close> returns a slot
  list with \<^verbatim>\<open>'before'\<close> at index 0 and \<^verbatim>\<open>'after'\<close> at the last index; an entry is an
  element child only at an even index, strictly between the two every even index holds an
  element child and no odd index does, and every element child of the filtered list is an
  entry of the slot list (at an even index).
\<close>

theorem indexChildNodes_convention:
  assumes "getChildNodes flt node \<noteq> []"
  shows "\<exists>slots. indexChildNodes flt node = Inr slots
     \<and> slots ! 0 = SMark MBefore
     \<and> slots ! (length slots - 1) = SMark MAfter
     \<and> (\<forall>i<length slots. isElemSlot (slots ! i) \<longrightarrow> even i)
     \<and> (\<forall>i. 0 < i \<and> i < length slots - 1 \<longrightarrow> isElemSlot (slots ! i) = even i)
     \<and> (\<forall>r\<in>set (getChildNodes flt node). isElementNode r \<longrightarrow>
           (\<exists>i<length slots. even i \<and> slots ! i = SNode r))"
proof -
  from indexChildNodes_nonempty[OF assms] obtain n2 where
    r: "indexChildNodes flt node = Inr (SMark MBefore # n2 @ [SMark MAfter])"
    and ne: "n2 \<noteq> []" and alt: "alternates n2" and h: "\<not> isElemSlot (hd n2)"
    and e: "elemsOf n2 = filter isElementNode (getChildNodes flt node)"
    by blast
  let ?slots = "SMark MBefore # n2 @ [SMark MAfter]"
  have par: "isElemSlot (n2 ! j) = odd j" if "j < length n2" for j
    using alternates_parity[OF alt that] h by simp
  have mid: "isElemSlot (?slots ! i) = even i" if "0 < i" "i < length ?slots - 1" for i
  proof -
    from that obtain j where j: "i = Suc j" "j < length n2" by (cases i) auto
    then show ?thesis using par[of j] by (simp add: nth_append)
  qed
  have p3: "\<forall>i<length ?slots. isElemSlot (?slots ! i) \<longrightarrow> even i"
  proof (intro allI impI)
    fix i assume i: "i < length ?slots" and el: "isElemSlot (?slots ! i)"
    show "even i"
    proof (cases "0 < i \<and> i < length ?slots - 1")
      case True
      then show ?thesis using mid[of i] el by simp
    next
      case False
      then have "i = 0 \<or> i = Suc (length n2)" using i by auto
      then show ?thesis using el by (auto simp: isElemSlot_def nth_append)
    qed
  qed
  have p5: "\<forall>r\<in>set (getChildNodes flt node). isElementNode r \<longrightarrow>
           (\<exists>i<length ?slots. even i \<and> ?slots ! i = SNode r)"
  proof (intro ballI impI)
    fix r assume "r \<in> set (getChildNodes flt node)" "isElementNode r"
    then have "r \<in> set (elemsOf n2)" by (simp add: e)
    then obtain j where j: "j < length n2" "n2 ! j = SNode r" using elemsOf_mem by blast
    then have s: "Suc j < length ?slots" "?slots ! Suc j = SNode r" by (simp_all add: nth_append)
    have "isElemSlot (?slots ! Suc j)" using s(2) \<open>isElementNode r\<close> by (simp add: isElemSlot_def)
    then have "even (Suc j)" using p3 s(1) by blast
    with s show "\<exists>i<length ?slots. even i \<and> ?slots ! i = SNode r" by blast
  qed
  have p1: "?slots ! 0 = SMark MBefore" by simp
  have p2: "?slots ! (length ?slots - 1) = SMark MAfter" by (simp add: nth_append)
  have p4: "\<forall>i. 0 < i \<and> i < length ?slots - 1 \<longrightarrow> isElemSlot (?slots ! i) = even i"
    using mid by blast
  show ?thesis
    using r p1 p2 p3 p4 p5 by blast
qed

theorem indexChildNodes_convention_witness:
  "getChildNodes None
     ([0], Node 1 [] [] [Node 1 ''a'' [] [], Node 3 [] ''xy'' [], Node 4 [] ''z'' [],
                         Node 1 [] [] [], Node 1 [] [] []]) \<noteq> []
   \<and> (\<exists>slots. indexChildNodes None
         ([0], Node 1 [] [] [Node 1 ''a'' [] [], Node 3 [] ''xy'' [], Node 4 [] ''z'' [],
                             Node 1 [] [] [], Node 1 [] [] []]) = Inr slots
        \<and> slots ! 0 = SMark MBefore
        \<and> slots ! (length slots - 1) = SMark MAfter
        \<and> slots ! 4 = SNode ([0, 3], Node 1 [] [] [])
        \<and> slots ! 6 = SNode ([0, 4], Node 1 [] [] []))"
proof -
  let ?n = "([0], Node 1 [] [] [Node 1 ''a'' [] [], Node 3 [] ''xy'' [], Node 4 [] ''z'' [],
                         Node 1 [] [] [], Node 1 [] [] []])"
  have h: "getChildNodes None ?n \<noteq> []" by (simp add: isTextNode_def isElementNode_def)
  have v: "indexChildNodes None ?n
      = Inr [SMark MBefore, SMark MFirst, SNode ([0, 0], Node 1 ''a'' [] []),
             SChunk [([0, 1], Node 3 [] ''xy'' []), ([0, 2], Node 4 [] ''z'' [])],
             SNode ([0, 3], Node 1 [] [] []), SNull, SNode ([0, 4], Node 1 [] [] []),
             SMark MLast, SMark MAfter]"
    by code_simp
  from indexChildNodes_convention[OF h] obtain slots where
    s: "indexChildNodes None ?n = Inr slots" "slots ! 0 = SMark MBefore"
       "slots ! (length slots - 1) = SMark MAfter"
    by blast
  from s(1) v have "slots ! 4 = SNode ([0, 3], Node 1 [] [] [])"
    "slots ! 6 = SNode ([0, 4], Node 1 [] [] [])" by auto
  with h s show ?thesis by blast
qed












section \<open>Path to node without an offset\<close>

lemma partsToNode_no_offset:
  assumes "ps \<noteq> []" "\<not> truthyStr (id' (last ps))"
    and "walk flt (CNode node) ps = Inr (Inr n)"
    and "case offset (last ps) of None \<Rightarrow> True | Some off \<Rightarrow> \<not> truthyNum off"
  shows "partsToNode doc node (Some ps) flt = Inr RNull"
  using assms by (simp add: partsToNode_def split: option.splits)

text \<open>
  C5.  The claim is that a path through real child slots whose terminal Part has no offset,
  or the offset zero, still resolves to its node.  In the document
  \<^verbatim>\<open><html><head/><body><p>Hello</p></body></html>\<close> the path \<^verbatim>\<open>/4/2\<close> walks from the
  root element to the \<^verbatim>\<open>p\<close> element, and \<open>partsToNode\<close> returns \<^verbatim>\<open>null\<close>: after the
  walk it executes \<^verbatim>\<open>if (!offset) return null\<close>.  The same with the offset \<^verbatim>\<open>0\<close>.
\<close>

theorem partsToNode_without_offset_is_null:
  "walk None
     (CNode ([0], Node 1 [] [] [Node 1 [] [] [], Node 1 [] [] [Node 1 [] [] [Node 3 [] ''Hello'' []]]]))
     [newPart (Num 4), newPart (Num 2)]
    = Inr (Inr (CNode ([0, 1, 0], Node 1 [] [] [Node 3 [] ''Hello'' []])))
   \<and> partsToNode
       (Node 9 [] [] [Node 1 [] [] [Node 1 [] [] [], Node 1 [] [] [Node 1 [] [] [Node 3 [] ''Hello'' []]]]])
       ([0], Node 1 [] [] [Node 1 [] [] [], Node 1 [] [] [Node 1 [] [] [Node 3 [] ''Hello'' []]]])
       (Some [newPart (Num 4), newPart (Num 2)]) None
      = Inr RNull
   \<and> partsToNode
       (Node 9 [] [] [Node 1 [] [] [Node 1 [] [] [], Node 1 [] [] [Node 1 [] [] [Node 3 [] ''Hello'' []]]]])
       ([0], Node 1 [] [] [Node 1 [] [] [], Node 1 [] [] [Node 1 [] [] [Node 3 [] ''Hello'' []]]])
       (Some [newPart (Num 4), (newPart (Num 2))\<lparr>offset := Some (Num 0)\<rparr>]) None
      = Inr RNull"
  by code_simp


section \<open>Node to path: the ids of the Parts\<close>

lemma partOf_id: "id' (partOf indexed node off) = idOf node"
  by (simp add: partOf_def Let_def)

lemma lineage_last:
  "parentNode doc node = Some par \<Longrightarrow> lineage doc node \<noteq> [] \<and> last (lineage doc node) = node"
  by (subst lineage.simps, subst (2) lineage.simps) simp

lemma slotsOf_eq:
  "parentNode doc node = Some par \<Longrightarrow> indexChildNodes flt par = Inr indexed \<Longrightarrow>
    slotsOf doc flt node = indexed"
  by (simp add: slotsOf_def)

lemma nodeToParts_parent:
  "nodeToParts doc flt node off = Inr ps \<Longrightarrow> \<exists>par. parentNode doc node = Some par"
  by (subst (asm) nodeToParts.simps) (auto split: option.splits)

lemma lineage_snoc:
  "parentNode doc node = Some par \<Longrightarrow> lineage doc node = butlast (lineage doc node) @ [node]"
  using lineage_last[of doc node par] by (metis append_butlast_last_id)

lemma nodeToParts_made:
  "nodeToParts doc flt node off = Inr ps \<Longrightarrow>
    ps = filter (\<lambda>x. index x \<noteq> Num (- 1))
           (map (partFor doc flt None) (butlast (lineage doc node)) @ [partFor doc flt off node])"
proof (induction doc flt node off arbitrary: ps rule: nodeToParts.induct)
  case (1 doc flt node off)
  from "1.prems" obtain par where par: "parentNode doc node = Some par"
    using nodeToParts_parent by blast
  from "1.prems" par obtain indexed where ix: "indexChildNodes flt par = Inr indexed"
    by (subst (asm) nodeToParts.simps) (auto split: sum.splits)
  let ?f = "\<lambda>x. index x \<noteq> Num (- 1)"
  have part: "partOf indexed node off = partFor doc flt off node"
    by (simp add: partFor_def slotsOf_eq[OF par ix])
  show ?case
  proof (cases "notDocumentElement doc par")
    case True
    from "1.prems" par ix True obtain ps' where ps': "nodeToParts doc flt par None = Inr ps'"
      and ps: "ps = filter ?f (ps' @ [partOf indexed node off])"
      by (subst (asm) nodeToParts.simps) (auto split: sum.splits)
    from ps' obtain gp where gp: "parentNode doc par = Some gp"
      using nodeToParts_parent by blast
    have l: "lineage doc node = lineage doc par @ [node]"
      using par True by (subst lineage.simps) simp
    have "ps' = filter ?f (map (partFor doc flt None) (butlast (lineage doc par)) @ [partFor doc flt None par])"
      using "1.IH"[OF par ix True ps'] .
    also have "map (partFor doc flt None) (butlast (lineage doc par)) @ [partFor doc flt None par]
        = map (partFor doc flt None) (butlast (lineage doc par) @ [par])"
      by simp
    also have "butlast (lineage doc par) @ [par] = lineage doc par"
      using lineage_snoc[OF gp] by simp
    finally have "ps' = filter ?f (map (partFor doc flt None) (lineage doc par))" .
    then show ?thesis using ps part l by simp
  next
    case False
    have l: "lineage doc node = [node]"
      using par False by (subst lineage.simps) simp
    from "1.prems" par ix False have "ps = filter ?f [partOf indexed node off]"
      by (subst (asm) nodeToParts.simps) auto
    then show ?thesis using part l by simp
  qed
qed

lemma partFor_id: "id' (partFor doc flt off a) = idOf a"
  by (simp add: partFor_def partOf_id)

lemma partFor_index: "index (partFor doc flt off a) = Num (findIndex (inSlot a) (slotsOf doc flt a))"
  by (simp add: partFor_def partOf_def Let_def newPart_def)

text \<open>
  C9 (as amended).  When \<open>nodeToParts\<close> returns, the path is made as follows: one Part
  for each ancestor of the node below the document element, outermost first, and one for the
  node itself, each with the id of the node it is made for (the id of an element, which may
  be empty; nothing for another node) and with the index of that node in the slot list of
  its parent; the Parts with index \<open>-1\<close>, of nodes that are in no slot of their parent,
  are then left out.  So every Part of the path carries the id of the node or ancestor it
  was made for, and when the node itself is in a slot of its parent the terminal Part is the
  one made for the node and carries its id.
\<close>

theorem nodeToParts_ids:
  assumes "nodeToParts doc flt node off = Inr ps"
  shows "ps = filter (\<lambda>x. index x \<noteq> Num (- 1))
               (map (partFor doc flt None) (butlast (lineage doc node)) @ [partFor doc flt off node])
     \<and> lineage doc node \<noteq> [] \<and> last (lineage doc node) = node
     \<and> (\<forall>a z. id' (partFor doc flt z a) = idOf a
               \<and> index (partFor doc flt z a) = Num (findIndex (inSlot a) (slotsOf doc flt a)))
     \<and> (\<forall>p\<in>set ps. \<exists>a\<in>set (lineage doc node). id' p = idOf a)
     \<and> (findIndex (inSlot node) (slotsOf doc flt node) \<noteq> - 1 \<longrightarrow>
          ps \<noteq> [] \<and> last ps = partFor doc flt off node \<and> id' (last ps) = idOf node)"
proof -
  let ?f = "\<lambda>x. index x \<noteq> Num (- 1)"
  let ?made = "map (partFor doc flt None) (butlast (lineage doc node)) @ [partFor doc flt off node]"
  have ps: "ps = filter ?f ?made" using nodeToParts_made[OF assms] .
  from assms obtain par where par: "parentNode doc node = Some par"
    using nodeToParts_parent by blast
  have l: "lineage doc node \<noteq> []" "last (lineage doc node) = node"
    using lineage_last[OF par] by simp_all
  have ids: "map id' ?made = map idOf (lineage doc node)"
  proof -
    have "map id' ?made = map idOf (butlast (lineage doc node) @ [node])"
      by (simp add: partFor_id)
    then show ?thesis using lineage_snoc[OF par] by simp
  qed
  have mem: "\<forall>p\<in>set ps. \<exists>a\<in>set (lineage doc node). id' p = idOf a"
  proof
    fix p assume "p \<in> set ps"
    then have "p \<in> set ?made" using ps filter_is_subset[of ?f ?made] by blast
    then have "id' p \<in> set (map id' ?made)" by (simp only: set_map) (rule imageI)
    then have "id' p \<in> set (map idOf (lineage doc node))" unfolding ids .
    then show "\<exists>a\<in>set (lineage doc node). id' p = idOf a" by auto
  qed
  have fin: "ps \<noteq> [] \<and> last ps = partFor doc flt off node \<and> id' (last ps) = idOf node"
    if "findIndex (inSlot node) (slotsOf doc flt node) \<noteq> - 1"
  proof -
    have "?f (partFor doc flt off node)" using that by (simp add: partFor_index)
    then have "ps = filter ?f (map (partFor doc flt None) (butlast (lineage doc node))) @ [partFor doc flt off node]"
      using ps by simp
    then show ?thesis by (simp add: partFor_id)
  qed
  show ?thesis using ps l mem fin by (simp add: partFor_id partFor_index)
qed

theorem nodeToParts_ids_witness:
  "nodeToParts
     (Node 9 [] [] [Node 1 [] [] [Node 1 [] [] [],
        Node 1 ''b'' [] [Node 1 ''para'' [] [Node 3 [] ''Hello'' [], Node 3 [] '' world'' []]]]])
     None ([0, 1, 0, 1], Node 3 [] '' world'' []) (Some (Num 2))
    = Inr [(newPart (Num 4))\<lparr>id' := Some ''b''\<rparr>, (newPart (Num 2))\<lparr>id' := Some ''para''\<rparr>,
           (newPart (Num 1))\<lparr>offset := Some (Num 7)\<rparr>]
   \<and> findIndex (inSlot ([0, 1, 0, 1], Node 3 [] '' world'' []))
       (slotsOf (Node 9 [] [] [Node 1 [] [] [Node 1 [] [] [],
          Node 1 ''b'' [] [Node 1 ''para'' [] [Node 3 [] ''Hello'' [], Node 3 [] '' world'' []]]]])
          None ([0, 1, 0, 1], Node 3 [] '' world'' [])) = 1
   \<and> last [(newPart (Num 4))\<lparr>id' := Some ''b''\<rparr>, (newPart (Num 2))\<lparr>id' := Some ''para''\<rparr>,
           (newPart (Num 1))\<lparr>offset := Some (Num 7)\<rparr>]
      = partFor (Node 9 [] [] [Node 1 [] [] [Node 1 [] [] [],
          Node 1 ''b'' [] [Node 1 ''para'' [] [Node 3 [] ''Hello'' [], Node 3 [] '' world'' []]]]])
          None (Some (Num 2)) ([0, 1, 0, 1], Node 3 [] '' world'' [])
   \<and> list_all (\<lambda>p. list_ex (\<lambda>a. id' p = idOf a)
         (lineage (Node 9 [] [] [Node 1 [] [] [Node 1 [] [] [],
            Node 1 ''b'' [] [Node 1 ''para'' [] [Node 3 [] ''Hello'' [], Node 3 [] '' world'' []]]]])
            ([0, 1, 0, 1], Node 3 [] '' world'' [])))
       [(newPart (Num 4))\<lparr>id' := Some ''b''\<rparr>, (newPart (Num 2))\<lparr>id' := Some ''para''\<rparr>,
        (newPart (Num 1))\<lparr>offset := Some (Num 7)\<rparr>]"
proof -
  let ?doc = "Node 9 [] [] [Node 1 [] [] [Node 1 [] [] [],
        Node 1 ''b'' [] [Node 1 ''para'' [] [Node 3 [] ''Hello'' [], Node 3 [] '' world'' []]]]]"
  have v: "nodeToParts ?doc None ([0, 1, 0, 1], Node 3 [] '' world'' []) (Some (Num 2))
    = Inr [(newPart (Num 4))\<lparr>id' := Some ''b''\<rparr>, (newPart (Num 2))\<lparr>id' := Some ''para''\<rparr>,
           (newPart (Num 1))\<lparr>offset := Some (Num 7)\<rparr>]"
    by code_simp
  have i: "findIndex (inSlot ([0, 1, 0, 1], Node 3 [] '' world'' []))
       (slotsOf ?doc None ([0, 1, 0, 1], Node 3 [] '' world'' [])) = 1"
    by code_simp
  have i': "findIndex (inSlot ([0, 1, 0, 1], Node 3 [] '' world'' []))
       (slotsOf ?doc None ([0, 1, 0, 1], Node 3 [] '' world'' [])) \<noteq> - 1"
    using i by simp
  note t = nodeToParts_ids[OF v]
  from t have m: "list_all (\<lambda>p. list_ex (\<lambda>a. id' p = idOf a)
         (lineage ?doc ([0, 1, 0, 1], Node 3 [] '' world'' [])))
       [(newPart (Num 4))\<lparr>id' := Some ''b''\<rparr>, (newPart (Num 2))\<lparr>id' := Some ''para''\<rparr>,
        (newPart (Num 1))\<lparr>offset := Some (Num 7)\<rparr>]"
    unfolding list_all_iff list_ex_iff by blast
  from t i' have l: "last [(newPart (Num 4))\<lparr>id' := Some ''b''\<rparr>, (newPart (Num 2))\<lparr>id' := Some ''para''\<rparr>,
           (newPart (Num 1))\<lparr>offset := Some (Num 7)\<rparr>]
      = partFor ?doc None (Some (Num 2)) ([0, 1, 0, 1], Node 3 [] '' world'' [])"
    by blast
  from v i l m show ?thesis by blast
qed

text \<open>
  The claim as stated fails: the path derived for a text node inside
  \<^verbatim>\<open><body id="b"><p id="para">\<close> has the ids \<^verbatim>\<open>b\<close> and \<^verbatim>\<open>para\<close> on its two
  non-terminal Parts, and the serializer renders them.
\<close>

theorem nodeToParts_ids_counterexample:
  "nodeToParts
     (Node 9 [] [] [Node 1 [] [] [Node 1 [] [] [],
        Node 1 ''b'' [] [Node 1 ''para'' [] [Node 3 [] ''Hello'' [], Node 3 [] '' world'' []]]]])
     None ([0, 1, 0, 1], Node 3 [] '' world'' []) (Some (Num 2))
    = Inr [(newPart (Num 4))\<lparr>id' := Some ''b''\<rparr>, (newPart (Num 2))\<lparr>id' := Some ''para''\<rparr>,
           (newPart (Num 1))\<lparr>offset := Some (Num 7)\<rparr>]
   \<and> toString (Parts [[(newPart (Num 4))\<lparr>id' := Some ''b''\<rparr>,
                        (newPart (Num 2))\<lparr>id' := Some ''para''\<rparr>,
                        (newPart (Num 1))\<lparr>offset := Some (Num 7)\<rparr>]])
      = ''epubcfi(/4[b]/2[para]/1:7)''"
  by code_simp

end
